theory Spec2Isabelle
  imports Complex_Main "HOL-Library.List_Lexorder" "HOL-Library.Char_ord"
    "HOL-Library.Code_Target_Nat"
begin

section \<open>Data model (app/models.py, app/config.py)\<close>

text \<open>
  Python strings are modelled as \<open>string\<close> (lists of \<open>char\<close>); a \<open>char\<close> stands for one
  code point below 256, so \<open>length\<close> is Python's \<open>len\<close> on such text.
\<close>

datatype FieldType = STRING | INTEGER | FLOAT | DECIMAL | BOOLEAN | DATE | DATETIME | EMPTY

datatype ParseMode = FAST | STRICT

definition MAX_ROWS :: nat where
  "MAX_ROWS = 100000"

definition FAST_SAMPLE_ROWS :: nat where
  "FAST_SAMPLE_ROWS = 5000"

text \<open>
  A Python \<open>float\<close>: a finite value (kept as an exact rational; binary rounding is not
  modelled), the two infinities, or NaN. Comparisons follow IEEE 754 as Python does:
  every ordering comparison with NaN is false.
\<close>

datatype pyfloat = Finite rat | PosInf | NegInf | NaN

fun float_lt :: "pyfloat \<Rightarrow> pyfloat \<Rightarrow> bool" where
  "float_lt NaN b = False"
| "float_lt a NaN = False"
| "float_lt (Finite a) (Finite b) = (a < b)"
| "float_lt (Finite a) PosInf = True"
| "float_lt (Finite a) NegInf = False"
| "float_lt PosInf b = False"
| "float_lt NegInf (Finite b) = True"
| "float_lt NegInf PosInf = True"
| "float_lt NegInf NegInf = False"

fun float_eq :: "pyfloat \<Rightarrow> pyfloat \<Rightarrow> bool" where
  "float_eq NaN b = False"
| "float_eq a NaN = False"
| "float_eq a b = (a = b)"

definition float_le :: "pyfloat \<Rightarrow> pyfloat \<Rightarrow> bool" where
  "float_le a b = (float_lt a b \<or> float_eq a b)"

text \<open>
  Python's two-argument \<open>min(a, b)\<close> keeps \<open>a\<close> unless \<open>b < a\<close>, and \<open>max(a, b)\<close> keeps
  \<open>a\<close> unless \<open>b > a\<close>.
\<close>

definition float_min :: "pyfloat \<Rightarrow> pyfloat \<Rightarrow> pyfloat" where
  "float_min a b = (if float_lt b a then b else a)"

definition float_max :: "pyfloat \<Rightarrow> pyfloat \<Rightarrow> pyfloat" where
  "float_max a b = (if float_lt a b then b else a)"

text \<open>A \<open>decimal.Decimal\<close> value: finite (exact), an infinity, or NaN.\<close>

datatype pydecimal = DFinite rat | DPosInf | DNegInf | DNaN

text \<open>
  A \<open>datetime\<close>: the wall-clock reading in microseconds since 0001-01-01T00:00:00 and,
  for an aware value, its UTC offset in microseconds. Ordering a naive against an aware
  value raises \<open>TypeError\<close>.
\<close>

record datetime =
  wall :: int
  utcoffset :: "int option"

datatype py_error =
    HTTPException nat string
  | TypeError
  | UnboundLocalError
  | ValidationError
  | ValueError
  | OverflowError
  | InvalidOperation
  | KeyError
  | IndexError
  | LookupError

definition datetime_lt :: "datetime \<Rightarrow> datetime \<Rightarrow> py_error + bool" where
  "datetime_lt a b =
     (case (utcoffset a, utcoffset b) of
        (None, None) \<Rightarrow> Inr (wall a < wall b)
      | (Some oa, Some ob) \<Rightarrow> Inr (wall a - oa < wall b - ob)
      | (None, Some ob) \<Rightarrow> Inl TypeError
      | (Some oa, None) \<Rightarrow> Inl TypeError)"

definition datetime_min :: "datetime \<Rightarrow> datetime \<Rightarrow> py_error + datetime" where
  "datetime_min a b =
     (case datetime_lt b a of Inl e \<Rightarrow> Inl e | Inr lt \<Rightarrow> Inr (if lt then b else a))"

definition datetime_max :: "datetime \<Rightarrow> datetime \<Rightarrow> py_error + datetime" where
  "datetime_max a b =
     (case datetime_lt a b of Inl e \<Rightarrow> Inl e | Inr lt \<Rightarrow> Inr (if lt then b else a))"

definition is_midnight :: "datetime \<Rightarrow> bool" where
  "is_midnight dt = (wall dt mod 86400000000 = 0)"

record FieldConstraint =
  name :: string
  ftype :: FieldType
  nullable :: bool
  min_length :: "int option"
  max_length :: "int option"
  min_value :: "pyfloat option"
  max_value :: "pyfloat option"
  allowed_values :: "string list option"
  null_fraction :: rat
  date_min :: "string option"
  date_max :: "string option"

text \<open>
  The pydantic model checks \<open>null_fraction\<close> against \<open>Field(0, ge=0, le=1)\<close> when a
  \<open>FieldConstraint\<close> is built.
\<close>

definition validate_FieldConstraint :: "FieldConstraint \<Rightarrow> py_error + FieldConstraint" where
  "validate_FieldConstraint c =
     (if 0 \<le> null_fraction c \<and> null_fraction c \<le> 1 then Inr c else Inl ValidationError)"

record ProfileResult =
  row_count :: nat
  pfields :: "FieldConstraint list"
  encoding :: string
  delimiter :: string
  decimal_separator :: string

section \<open>The library interface\<close>

text \<open>
  The parsers of the Python standard library that the profiler calls are parameters of
  the model: \<open>datetime.strptime\<close> (text, format), \<open>datetime.fromisoformat\<close>, \<open>int\<close>,
  \<open>Decimal\<close> and \<open>float\<close> on a string (\<open>None\<close> when the call raises), and
  \<open>datetime.isoformat\<close>. Every theorem below holds for any behaviour of these functions.
\<close>

record pylib =
  strptime :: "string \<Rightarrow> string \<Rightarrow> datetime option"
  fromisoformat :: "string \<Rightarrow> datetime option"
  int_of_str :: "string \<Rightarrow> int option"
  Decimal_of_str :: "string \<Rightarrow> pydecimal option"
  float_of_str :: "string \<Rightarrow> pyfloat option"
  isoformat :: "datetime \<Rightarrow> string"

section \<open>String helpers\<close>

definition is_space :: "char \<Rightarrow> bool" where
  "is_space c = (c \<in> set [CHR 0x09, CHR 0x0A, CHR 0x0B, CHR 0x0C, CHR 0x0D, CHR 0x1C,
                           CHR 0x1D, CHR 0x1E, CHR 0x1F, CHR 0x20, CHR 0x85, CHR 0xA0])"

definition strip :: "string \<Rightarrow> string" where
  "strip s = rev (dropWhile is_space (rev (dropWhile is_space s)))"

definition lower_char :: "char \<Rightarrow> char" where
  "lower_char c =
     (let n = (of_char c :: nat) in
      if (65 \<le> n \<and> n \<le> 90) \<or> (192 \<le> n \<and> n \<le> 222 \<and> n \<noteq> 215)
      then char_of (n + 32) else c)"

definition lower :: "string \<Rightarrow> string" where
  "lower s = map lower_char s"

definition is_digit :: "char \<Rightarrow> bool" where
  "is_digit c = (CHR ''0'' \<le> c \<and> c \<le> CHR ''9'')"

definition is_sep :: "char \<Rightarrow> bool" where
  "is_sep c = (c = CHR ''.'' \<or> c = CHR '','')"

definition strip_sign :: "string \<Rightarrow> string" where
  "strip_sign s =
     (case s of [] \<Rightarrow> [] | c # r \<Rightarrow> if c = CHR ''+'' \<or> c = CHR ''-'' then r else s)"

text \<open>The tail \<open>(?:[.,]\d+)*$\<close> of the first pattern.\<close>

function sep_groups :: "string \<Rightarrow> bool" where
  "sep_groups [] = True"
| "sep_groups (c # cs) =
     (is_sep c \<and> takeWhile is_digit cs \<noteq> [] \<and> sep_groups (dropWhile is_digit cs))"
  by pat_completeness auto
termination
  by (relation "measure length") (auto simp: le_imp_less_Suc length_dropWhile_le)

text \<open>\<open>re.match(r"^[+-]?\d{1,3}(?:[.,]\d+)+$", txt)\<close>, on stripped text.\<close>

definition match_grouped :: "string \<Rightarrow> bool" where
  "match_grouped txt =
     (let s = strip_sign txt; d = takeWhile is_digit s; r = dropWhile is_digit s
      in 1 \<le> length d \<and> length d \<le> 3 \<and> r \<noteq> [] \<and> sep_groups r)"

text \<open>\<open>re.match(r"^[+-]?\d+[.,]\d+$", txt)\<close>, on stripped text.\<close>

definition match_simple :: "string \<Rightarrow> bool" where
  "match_simple txt =
     (let s = strip_sign txt; d = takeWhile is_digit s; r = dropWhile is_digit s
      in d \<noteq> [] \<and>
         (case r of [] \<Rightarrow> False
          | c # ds \<Rightarrow> is_sep c \<and> ds \<noteq> [] \<and> list_all is_digit ds))"

section \<open>Cell classification (app/services/profile.py)\<close>

definition parse_formats :: "string list" where
  "parse_formats =
     [''%Y-%m-%dT%H:%M:%S'', ''%Y-%m-%d %H:%M:%S'', ''%Y-%m-%d'', ''%Y/%m/%d'',
      ''%d/%m/%Y'', ''%m/%d/%Y'']"

fun try_formats :: "pylib \<Rightarrow> string \<Rightarrow> string list \<Rightarrow> datetime option" where
  "try_formats L txt [] = None"
| "try_formats L txt (fmt # fmts) =
     (case strptime L txt fmt of Some dt \<Rightarrow> Some dt | None \<Rightarrow> try_formats L txt fmts)"

definition parse_datetime :: "pylib \<Rightarrow> string \<Rightarrow> datetime option" where
  "parse_datetime L raw =
     (let txt = strip raw in
      if txt = [] then None
      else case try_formats L txt parse_formats of
             Some dt \<Rightarrow> Some dt
           | None \<Rightarrow> fromisoformat L txt)"

definition detect_decimal_separator :: "string \<Rightarrow> string option" where
  "detect_decimal_separator raw =
     (let txt = strip raw in
      if txt = [] then None
      else if match_grouped txt then Some (if CHR '','' \<in> set txt then '','' else ''.'')
      else if match_simple txt then Some (if CHR '','' \<in> set txt then '','' else ''.'')
      else None)"

text \<open>\<open>s.replace(".", "").replace(",", ".")\<close> and \<open>s.replace(",", "")\<close>.\<close>

definition comma_to_point :: "string \<Rightarrow> string" where
  "comma_to_point s =
     map (\<lambda>c. if c = CHR '','' then CHR ''.'' else c) (filter (\<lambda>c. c \<noteq> CHR ''.'') s)"

definition drop_commas :: "string \<Rightarrow> string" where
  "drop_commas s = filter (\<lambda>c. c \<noteq> CHR '','') s"

definition normalize_numeric :: "pylib \<Rightarrow> string \<Rightarrow> pyfloat option" where
  "normalize_numeric L raw =
     (let txt = strip raw in
      if txt = [] then None
      else
        let sep = detect_decimal_separator txt;
            candidate = (if sep = Some '','' then comma_to_point txt
                         else if sep = Some ''.'' then drop_commas txt
                         else txt)
        in case float_of_str L candidate of
             Some x \<Rightarrow> Some x
           | None \<Rightarrow> float_of_str L txt)"

definition detect_type :: "pylib \<Rightarrow> string \<Rightarrow> FieldType" where
  "detect_type L raw =
     (if raw = [] then EMPTY
      else
        let lw = lower (strip raw) in
        if lw \<in> set [''true'', ''false'', ''1'', ''0'', ''yes'', ''no''] then BOOLEAN
        else case parse_datetime L raw of
          Some dt \<Rightarrow> (if \<not> is_midnight dt then DATETIME else DATE)
        | None \<Rightarrow>
           (case int_of_str L lw of
              Some i \<Rightarrow> INTEGER
            | None \<Rightarrow>
               (let sep = detect_decimal_separator raw;
                    normalized = (if sep = Some '','' then comma_to_point (strip raw)
                                  else drop_commas (strip raw))
                in if sep \<noteq> None \<and> Decimal_of_str L normalized \<noteq> None then DECIMAL
                   else if Decimal_of_str L lw \<noteq> None
                           \<and> (\<exists>ch \<in> set ''.eE,''. ch \<in> set lw) then DECIMAL
                   else case float_of_str L lw of
                          Some x \<Rightarrow> FLOAT
                        | None \<Rightarrow> STRING)))"

section \<open>Per-column statistics (FieldStats)\<close>

text \<open>
  \<open>type_counts\<close> is a dict created with every \<open>FieldType\<close> as a key, in the order of the
  enum's declaration, and only ever updated in place: an association list in that order.
  \<open>allowed_values\<close> is a Python set.
\<close>

record FieldStats =
  stat_name :: string
  type_counts :: "(FieldType \<times> nat) list"
  max_len :: nat
  min_len :: "nat option"
  min_val :: "pyfloat option"
  max_val :: "pyfloat option"
  allowed_set :: "string set"
  nulls :: nat
  min_date :: "datetime option"
  max_date :: "datetime option"

definition all_types :: "FieldType list" where
  "all_types = [STRING, INTEGER, FLOAT, DECIMAL, BOOLEAN, DATE, DATETIME, EMPTY]"

definition new_FieldStats :: "string \<Rightarrow> FieldStats" where
  "new_FieldStats h =
     \<lparr> stat_name = h, type_counts = map (\<lambda>t. (t, 0)) all_types, max_len = 0, min_len = None,
       min_val = None, max_val = None, allowed_set = {}, nulls = 0, min_date = None,
       max_date = None \<rparr>"

text \<open>\<open>self.type_counts[detected_type] += 1\<close>: the key is present, its place is kept.\<close>

definition bump :: "FieldType \<Rightarrow> (FieldType \<times> nat) list \<Rightarrow> (FieldType \<times> nat) list" where
  "bump t tc = map (\<lambda>(k, c). if k = t then (k, c + 1) else (k, c)) tc"

text \<open>Lines 35-37 of \<open>register\<close>: the length bounds.\<close>

definition register_length :: "FieldStats \<Rightarrow> string \<Rightarrow> FieldStats" where
  "register_length s v =
     s\<lparr> max_len := max (max_len s) (length v),
        min_len := (case min_len s of None \<Rightarrow> Some (length v)
                    | Some m \<Rightarrow> Some (min m (length v))) \<rparr>"

text \<open>Lines 38-42: the numeric bounds.\<close>

definition register_numeric :: "pylib \<Rightarrow> FieldStats \<Rightarrow> string \<Rightarrow> FieldType \<Rightarrow> FieldStats" where
  "register_numeric L s v t =
     (if t \<in> {INTEGER, FLOAT, DECIMAL} then
        (case normalize_numeric L v of
           None \<Rightarrow> s
         | Some x \<Rightarrow>
             s\<lparr> min_val := (case min_val s of None \<Rightarrow> Some x | Some m \<Rightarrow> Some (float_min m x)),
                max_val := (case max_val s of None \<Rightarrow> Some x | Some m \<Rightarrow> Some (float_max m x)) \<rparr>)
      else s)"

text \<open>Lines 43-47: the date bounds; \<open>min\<close> and \<open>max\<close> of datetimes may raise.\<close>

definition register_date :: "pylib \<Rightarrow> FieldStats \<Rightarrow> string \<Rightarrow> FieldType \<Rightarrow> py_error + FieldStats" where
  "register_date L s v t =
     (if t \<in> {DATE, DATETIME} then
        (case parse_datetime L v of
           None \<Rightarrow> Inr s
         | Some dt \<Rightarrow>
            (case (case min_date s of None \<Rightarrow> Inr dt | Some m \<Rightarrow> datetime_min m dt) of
               Inl e \<Rightarrow> Inl e
             | Inr lo \<Rightarrow>
                (case (case max_date s of None \<Rightarrow> Inr dt | Some m \<Rightarrow> datetime_max m dt) of
                   Inl e \<Rightarrow> Inl e
                 | Inr hi \<Rightarrow> Inr (s\<lparr> min_date := Some lo, max_date := Some hi \<rparr>))))
      else Inr s)"

text \<open>Lines 48-50: keep small cardinality sets only.\<close>

definition register_allowed :: "FieldStats \<Rightarrow> string \<Rightarrow> FieldStats" where
  "register_allowed s v =
     (if card (allowed_set s) < 50 then s\<lparr> allowed_set := insert v (allowed_set s) \<rparr> else s)"

definition register :: "pylib \<Rightarrow> FieldStats \<Rightarrow> string \<Rightarrow> FieldType \<Rightarrow> py_error + FieldStats" where
  "register L s v t =
     (let s1 = s\<lparr> type_counts := bump t (type_counts s) \<rparr> in
      if v = [] then Inr (s1\<lparr> nulls := nulls s1 + 1 \<rparr>)
      else
        case register_date L (register_numeric L (register_length s1 v) v t) v t of
          Inl e \<Rightarrow> Inl e
        | Inr s2 \<Rightarrow> Inr (register_allowed s2 v))"

section \<open>Final type of a column\<close>

text \<open>
  \<open>sorted(items, key=count, reverse=True)\<close> is stable: items of equal count keep their order
  in the dict. Sorting stably on the negated count gives that list.
\<close>

definition pick_final_type :: "(FieldType \<times> nat) list \<Rightarrow> FieldType" where
  "pick_final_type tc =
     (let non_zero = filter (\<lambda>(t, c). c > 0 \<and> t \<noteq> EMPTY) tc in
      if non_zero = [] then EMPTY
      else fst (hd (sort_key (\<lambda>(t, c). - int c) non_zero)))"

section \<open>Profiling (profile_from_text)\<close>

text \<open>
  The text is read through \<open>csv.DictReader\<close>; the model starts from what the reader
  yields: the field names and, per data row, a dict from field name to value (\<open>None\<close>
  for a missing key or a \<open>None\<close> value). \<open>row.get(header, "") or ""\<close> is \<open>cell\<close>.
\<close>

type_synonym csv_row = "string \<Rightarrow> string option"

definition cell :: "csv_row \<Rightarrow> string \<Rightarrow> string" where
  "cell row h = (case row h of None \<Rightarrow> [] | Some v \<Rightarrow> v)"

type_synonym scan_state = "(string \<Rightarrow> FieldStats option) \<times> string set"

definition scan_cell :: "pylib \<Rightarrow> csv_row \<Rightarrow> scan_state \<Rightarrow> string \<Rightarrow> py_error + scan_state" where
  "scan_cell L row st header =
     (let raw = cell row header;
          seps = (case detect_decimal_separator raw of
                    Some sep \<Rightarrow> insert sep (snd st)
                  | None \<Rightarrow> snd st);
          detected = detect_type L raw
      in case fst st header of
           None \<Rightarrow> Inl KeyError
         | Some fs \<Rightarrow>
            (case register L fs raw detected of
               Inl e \<Rightarrow> Inl e
             | Inr fs' \<Rightarrow> Inr ((fst st)(header \<mapsto> fs'), seps)))"

fun scan_row :: "pylib \<Rightarrow> csv_row \<Rightarrow> string list \<Rightarrow> scan_state \<Rightarrow> py_error + scan_state" where
  "scan_row L row [] st = Inr st"
| "scan_row L row (h # hs) st =
     (case scan_cell L row st h of Inl e \<Rightarrow> Inl e | Inr st' \<Rightarrow> scan_row L row hs st')"

definition row_limit_error :: py_error where
  "row_limit_error = HTTPException 400 ''Row limit exceeded (100k max)''"

definition sample_limit_of :: "ParseMode \<Rightarrow> nat option" where
  "sample_limit_of m = (if m = FAST then Some FAST_SAMPLE_ROWS else None)"

text \<open>
  The loop \<open>for idx, row in enumerate(reader, start=1)\<close>. The argument \<open>idx\<close> is the loop
  variable before the iteration (\<open>None\<close> while it is unbound); the result carries its value
  after the loop.
\<close>

fun row_loop ::
  "pylib \<Rightarrow> string list \<Rightarrow> nat option \<Rightarrow> nat option \<Rightarrow> csv_row list \<Rightarrow> scan_state
     \<Rightarrow> py_error + (scan_state \<times> nat option)" where
  "row_loop L hs sl idx [] st = Inr (st, idx)"
| "row_loop L hs sl idx (row # rest) st =
     (let i = (case idx of None \<Rightarrow> 1 | Some j \<Rightarrow> j + 1) in
      if i > MAX_ROWS then Inl row_limit_error
      else if (case sl of None \<Rightarrow> False | Some l \<Rightarrow> l \<noteq> 0 \<and> i > l) then Inr (st, Some i)
      else case scan_row L row hs st of
             Inl e \<Rightarrow> Inl e
           | Inr st' \<Rightarrow> row_loop L hs sl (Some i) rest st')"

text \<open>\<open>min(idx if 'idx' in locals() else 0, sample_limit or idx)\<close>.\<close>

definition total_rows_of :: "nat option \<Rightarrow> nat option \<Rightarrow> py_error + nat" where
  "total_rows_of idx sl =
     (let a = (case idx of None \<Rightarrow> 0 | Some i \<Rightarrow> i);
          idx_value = (case idx of None \<Rightarrow> Inl UnboundLocalError | Some i \<Rightarrow> Inr i);
          b = (case sl of None \<Rightarrow> idx_value
               | Some l \<Rightarrow> if l \<noteq> 0 then Inr l else idx_value)
      in case b of Inl e \<Rightarrow> Inl e | Inr n \<Rightarrow> Inr (min a n))"

definition finalize :: "pylib \<Rightarrow> nat \<Rightarrow> string \<Rightarrow> FieldStats \<Rightarrow> py_error + FieldConstraint" where
  "finalize L total_rows header fs =
     validate_FieldConstraint
       \<lparr> name = header,
         ftype = pick_final_type (type_counts fs),
         nullable = (nulls fs > 0),
         min_length = map_option int (min_len fs),
         max_length = Some (int (max_len fs)),
         min_value = min_val fs,
         max_value = max_val fs,
         allowed_values =
           (if allowed_set fs \<noteq> {} \<and> card (allowed_set fs) \<le> 50
            then Some (sorted_list_of_set (allowed_set fs)) else None),
         null_fraction = (if total_rows \<noteq> 0 then of_nat (nulls fs) / of_nat total_rows else 0),
         date_min = map_option (isoformat L) (min_date fs),
         date_max = map_option (isoformat L) (max_date fs) \<rparr>"

fun build_constraints ::
  "pylib \<Rightarrow> nat \<Rightarrow> (string \<Rightarrow> FieldStats option) \<Rightarrow> string list \<Rightarrow> py_error + FieldConstraint list" where
  "build_constraints L total_rows stats [] = Inr []"
| "build_constraints L total_rows stats (h # hs) =
     (case stats h of
        None \<Rightarrow> Inl KeyError
      | Some fs \<Rightarrow>
         (case finalize L total_rows h fs of
            Inl e \<Rightarrow> Inl e
          | Inr c \<Rightarrow>
             (case build_constraints L total_rows stats hs of
                Inl e \<Rightarrow> Inl e
              | Inr cs \<Rightarrow> Inr (c # cs))))"

definition init_stats :: "string list \<Rightarrow> (string \<Rightarrow> FieldStats option)" where
  "init_stats headers = (\<lambda>h. if h \<in> set headers then Some (new_FieldStats h) else None)"

definition profile_from_text ::
  "pylib \<Rightarrow> string list \<Rightarrow> csv_row list \<Rightarrow> string \<Rightarrow> ParseMode \<Rightarrow> string
     \<Rightarrow> py_error + ProfileResult" where
  "profile_from_text L headers rows delim parse_mode enc =
     (let sample_limit = sample_limit_of parse_mode in
      case row_loop L headers sample_limit None rows (init_stats headers, {}) of
        Inl e \<Rightarrow> Inl e
      | Inr ((stats, decimal_separators), idx) \<Rightarrow>
         (case total_rows_of idx sample_limit of
            Inl e \<Rightarrow> Inl e
          | Inr total_rows \<Rightarrow>
             (case build_constraints L total_rows stats headers of
                Inl e \<Rightarrow> Inl e
              | Inr constraints \<Rightarrow>
                 Inr \<lparr> row_count = total_rows, pfields = constraints, encoding = enc,
                       delimiter = delim,
                       decimal_separator =
                         (if '','' \<in> decimal_separators \<and> ''.'' \<notin> decimal_separators
                          then '','' else ''.'') \<rparr>)))"

section \<open>Synthesis: numbers (app/services/synth.py)\<close>

text \<open>
  Float arithmetic with the IEEE 754 rules for infinities and NaN; on finite values it is
  exact (rounding and overflow are not modelled).
\<close>

fun float_neg :: "pyfloat \<Rightarrow> pyfloat" where
  "float_neg (Finite a) = Finite (- a)"
| "float_neg PosInf = NegInf"
| "float_neg NegInf = PosInf"
| "float_neg NaN = NaN"

fun float_add :: "pyfloat \<Rightarrow> pyfloat \<Rightarrow> pyfloat" where
  "float_add NaN b = NaN"
| "float_add a NaN = NaN"
| "float_add (Finite a) (Finite b) = Finite (a + b)"
| "float_add (Finite a) b = b"
| "float_add a (Finite b) = a"
| "float_add PosInf NegInf = NaN"
| "float_add NegInf PosInf = NaN"
| "float_add a b = a"

definition float_sub :: "pyfloat \<Rightarrow> pyfloat \<Rightarrow> pyfloat" where
  "float_sub a b = float_add a (float_neg b)"

definition float_sign :: "pyfloat \<Rightarrow> int" where
  "float_sign a =
     (case a of Finite q \<Rightarrow> (if q < 0 then - 1 else if q = 0 then 0 else 1)
      | PosInf \<Rightarrow> 1 | NegInf \<Rightarrow> - 1 | NaN \<Rightarrow> 0)"

fun float_mul :: "pyfloat \<Rightarrow> pyfloat \<Rightarrow> pyfloat" where
  "float_mul NaN b = NaN"
| "float_mul a NaN = NaN"
| "float_mul (Finite a) (Finite b) = Finite (a * b)"
| "float_mul a b =
     (if float_sign a * float_sign b = 0 then NaN
      else if float_sign a * float_sign b > 0 then PosInf else NegInf)"

text \<open>\<open>int(x)\<close> for a float: truncation towards zero; NaN and the infinities raise.\<close>

definition int_of_float :: "pyfloat \<Rightarrow> py_error + int" where
  "int_of_float x =
     (case x of
        Finite q \<Rightarrow> Inr (if q < 0 then - \<lfloor>- q\<rfloor> else \<lfloor>q\<rfloor>)
      | PosInf \<Rightarrow> Inl OverflowError
      | NegInf \<Rightarrow> Inl OverflowError
      | NaN \<Rightarrow> Inl ValueError)"

text \<open>
  Decimal arithmetic under the default context: a quiet NaN propagates through \<open>+\<close>, \<open>-\<close>
  and \<open>*\<close>; \<open>Infinity - Infinity\<close> and \<open>0 * Infinity\<close> raise \<open>InvalidOperation\<close>; \<open>==\<close> with a
  NaN is false, and an ordering comparison with a NaN raises \<open>InvalidOperation\<close>. Finite
  results are exact (the context precision is not modelled), and signalling NaNs are
  left out.
\<close>

fun dec_neg :: "pydecimal \<Rightarrow> pydecimal" where
  "dec_neg (DFinite a) = DFinite (- a)"
| "dec_neg DPosInf = DNegInf"
| "dec_neg DNegInf = DPosInf"
| "dec_neg DNaN = DNaN"

fun dec_add :: "pydecimal \<Rightarrow> pydecimal \<Rightarrow> py_error + pydecimal" where
  "dec_add DNaN b = Inr DNaN"
| "dec_add a DNaN = Inr DNaN"
| "dec_add (DFinite a) (DFinite b) = Inr (DFinite (a + b))"
| "dec_add (DFinite a) b = Inr b"
| "dec_add a (DFinite b) = Inr a"
| "dec_add DPosInf DNegInf = Inl InvalidOperation"
| "dec_add DNegInf DPosInf = Inl InvalidOperation"
| "dec_add a b = Inr a"

definition dec_sub :: "pydecimal \<Rightarrow> pydecimal \<Rightarrow> py_error + pydecimal" where
  "dec_sub a b = dec_add a (dec_neg b)"

definition dec_sign :: "pydecimal \<Rightarrow> int" where
  "dec_sign a =
     (case a of DFinite q \<Rightarrow> (if q < 0 then - 1 else if q = 0 then 0 else 1)
      | DPosInf \<Rightarrow> 1 | DNegInf \<Rightarrow> - 1 | DNaN \<Rightarrow> 0)"

fun dec_mul :: "pydecimal \<Rightarrow> pydecimal \<Rightarrow> py_error + pydecimal" where
  "dec_mul DNaN b = Inr DNaN"
| "dec_mul a DNaN = Inr DNaN"
| "dec_mul (DFinite a) (DFinite b) = Inr (DFinite (a * b))"
| "dec_mul a b =
     (if dec_sign a * dec_sign b = 0 then Inl InvalidOperation
      else if dec_sign a * dec_sign b > 0 then Inr DPosInf else Inr DNegInf)"

definition dec_eq :: "pydecimal \<Rightarrow> pydecimal \<Rightarrow> bool" where
  "dec_eq a b = (a \<noteq> DNaN \<and> b \<noteq> DNaN \<and> a = b)"

fun dec_lt :: "pydecimal \<Rightarrow> pydecimal \<Rightarrow> py_error + bool" where
  "dec_lt DNaN b = Inl InvalidOperation"
| "dec_lt a DNaN = Inl InvalidOperation"
| "dec_lt (DFinite a) (DFinite b) = Inr (a < b)"
| "dec_lt (DFinite a) DPosInf = Inr True"
| "dec_lt (DFinite a) DNegInf = Inr False"
| "dec_lt DPosInf b = Inr False"
| "dec_lt DNegInf (DFinite b) = Inr True"
| "dec_lt DNegInf DPosInf = Inr True"
| "dec_lt DNegInf DNegInf = Inr False"

definition dec_min :: "pydecimal \<Rightarrow> pydecimal \<Rightarrow> py_error + pydecimal" where
  "dec_min a b = (case dec_lt b a of Inl e \<Rightarrow> Inl e | Inr lt \<Rightarrow> Inr (if lt then b else a))"

definition dec_max :: "pydecimal \<Rightarrow> pydecimal \<Rightarrow> py_error + pydecimal" where
  "dec_max a b = (case dec_lt a b of Inl e \<Rightarrow> Inl e | Inr lt \<Rightarrow> Inr (if lt then b else a))"

text \<open>\<open>str(i)\<close> for an int.\<close>

function str_nat :: "nat \<Rightarrow> string" where
  "str_nat n = (if n < 10 then [char_of (48 + n)] else str_nat (n div 10) @ [char_of (48 + n mod 10)])"
  by pat_completeness auto
termination
  by (relation "measure id") auto

declare str_nat.simps [simp del]

definition str_int :: "int \<Rightarrow> string" where
  "str_int i = (if i < 0 then CHR ''-'' # str_nat (nat (- i)) else str_nat (nat i))"

text \<open>\<open>s.replace(".", sep)\<close>.\<close>

definition replace_point :: "string \<Rightarrow> string \<Rightarrow> string" where
  "replace_point sep s = concat (map (\<lambda>c. if c = CHR ''.'' then sep else [c]) s)"

section \<open>Synthesis: the environment\<close>

text \<open>
  The \<open>random\<close> module keeps one global generator. Its state is the type \<open>'g\<close>, and the
  functions of the module that the code calls are parameters: \<open>seed\<close> gives the state after
  \<open>random.seed(s)\<close>; the others return the value drawn and the next state. \<open>randbelow n\<close> is
  the index that \<open>random.choice\<close> draws for a sequence of length \<open>n\<close>, \<open>randint a b\<close> is
  called with \<open>a \<le> b\<close> only, and \<open>choices n k\<close> are the \<open>k\<close> indices that \<open>random.choices\<close>
  draws from a population of \<open>n\<close>.
\<close>

record 'g pyrandom =
  seed :: "int \<Rightarrow> 'g"
  random :: "'g \<Rightarrow> rat \<times> 'g"
  randbelow :: "nat \<Rightarrow> 'g \<Rightarrow> nat \<times> 'g"
  randint :: "int \<Rightarrow> int \<Rightarrow> 'g \<Rightarrow> int \<times> 'g"
  uniform :: "pyfloat \<Rightarrow> pyfloat \<Rightarrow> 'g \<Rightarrow> pyfloat \<times> 'g"
  choices :: "nat \<Rightarrow> nat \<Rightarrow> 'g \<Rightarrow> nat list \<times> 'g"

text \<open>
  The contract of the module that some properties rest on: \<open>randint(a, b)\<close> lies in
  \<open>[a, b]\<close>, and the indices drawn for \<open>choice\<close> and \<open>choices\<close> lie within the sequence.
\<close>

definition random_ok :: "'g pyrandom \<Rightarrow> bool" where
  "random_ok R =
     ((\<forall>a b g. a \<le> b \<longrightarrow> a \<le> fst (randint R a b g) \<and> fst (randint R a b g) \<le> b)
      \<and> (\<forall>n g. 0 < n \<longrightarrow> fst (randbelow R n g) < n)
      \<and> (\<forall>n k g. 0 < n \<longrightarrow> length (fst (choices R n k g)) = k
                        \<and> (\<forall>i \<in> set (fst (choices R n k g)). i < n)))"

text \<open>
  The process state a synthesis call runs in: the generator and the wall clock. \<open>clock w k\<close>
  is what the \<open>k\<close>-th call of \<open>datetime.now()\<close> returns.
\<close>

record 'g world =
  rng :: 'g
  ticks :: nat
  clock :: "nat \<Rightarrow> datetime"

definition now :: "'g world \<Rightarrow> datetime \<times> 'g world" where
  "now w = (clock w (ticks w), w\<lparr> ticks := ticks w + 1 \<rparr>)"

text \<open>
  Conversions and formatting of the standard library that synthesis calls, as parameters:
  \<open>Decimal(str(x))\<close> and \<open>Decimal(x)\<close> of a float, \<open>float(d)\<close> of a decimal,
  \<open>Decimal(str(u))\<close> of a draw of \<open>random.random()\<close>, \<open>format(d.quantize(Decimal("0.001")),
  "f")\<close> (which may raise), \<open>f"{x:.3f}"\<close>, \<open>d.date().isoformat()\<close>,
  \<open>d.isoformat(sep="T", timespec="seconds")\<close>, the line \<open>csv.writer.writerow\<close> writes for a
  delimiter and a row, and \<open>str.encode\<close> for an encoding name (which may raise).
\<close>

record synthlib =
  Decimal_of_float_str :: "pyfloat \<Rightarrow> pydecimal"
  Decimal_of_float :: "pyfloat \<Rightarrow> pydecimal"
  float_of_Decimal :: "pydecimal \<Rightarrow> pyfloat"
  Decimal_of_draw :: "rat \<Rightarrow> pydecimal"
  quantize_format :: "pydecimal \<Rightarrow> py_error + string"
  format_3f :: "pyfloat \<Rightarrow> string"
  date_isoformat :: "datetime \<Rightarrow> string"
  seconds_isoformat :: "datetime \<Rightarrow> string"
  writerow :: "string \<Rightarrow> string list \<Rightarrow> string"
  encode :: "string \<Rightarrow> string \<Rightarrow> py_error + string"

text \<open>
  \<open>datetime + timedelta\<close>: the result must stay within years 1 to 9999, otherwise
  \<open>OverflowError\<close>. The argument is in microseconds.
\<close>

definition max_wall :: int where
  "max_wall = 3652059 * 86400000000 - 1"

definition datetime_shift :: "datetime \<Rightarrow> int \<Rightarrow> py_error + datetime" where
  "datetime_shift dt us =
     (if 0 \<le> wall dt + us \<and> wall dt + us \<le> max_wall
      then Inr (dt\<lparr> wall := wall dt + us \<rparr>) else Inl OverflowError)"

text \<open>\<open>(b - a)\<close> in microseconds; a naive and an aware value do not subtract.\<close>

definition datetime_diff :: "datetime \<Rightarrow> datetime \<Rightarrow> py_error + int" where
  "datetime_diff b a =
     (case (utcoffset b, utcoffset a) of
        (None, None) \<Rightarrow> Inr (wall b - wall a)
      | (Some ob, Some oa) \<Rightarrow> Inr ((wall b - ob) - (wall a - oa))
      | (None, Some oa) \<Rightarrow> Inl TypeError
      | (Some ob, None) \<Rightarrow> Inl TypeError)"

section \<open>Synthesis: one value (_generate_value)\<close>

definition null_probability :: "FieldConstraint \<Rightarrow> rat" where
  "null_probability c = min (max (null_fraction c) 0) (9 / 10)"

text \<open>
  \<open>_parsed_allowed_numbers(allowed, cast)\<close>: the values that \<open>cast\<close> accepts, in order;
  \<open>None\<close> and the empty list give the empty list.
\<close>

definition parsed_allowed_numbers :: "string list option \<Rightarrow> (string \<Rightarrow> 'a option) \<Rightarrow> 'a list" where
  "parsed_allowed_numbers allowed cast =
     (case allowed of None \<Rightarrow> [] | Some vals \<Rightarrow> List.map_filter cast vals)"

text \<open>\<open>random.choice(xs)\<close> on a non-empty list.\<close>

definition choice :: "'g pyrandom \<Rightarrow> 'a list \<Rightarrow> 'g world \<Rightarrow> 'a \<times> 'g world" where
  "choice R xs w =
     (let (i, g) = randbelow R (length xs) (rng w) in (xs ! i, w\<lparr> rng := g \<rparr>))"

text \<open>\<open>random.randint(a, b)\<close>: an empty range raises \<open>ValueError\<close>.\<close>

definition py_randint :: "'g pyrandom \<Rightarrow> int \<Rightarrow> int \<Rightarrow> 'g world \<Rightarrow> py_error + (int \<times> 'g world)" where
  "py_randint R a b w =
     (if a \<le> b then (let (v, g) = randint R a b (rng w) in Inr (v, w\<lparr> rng := g \<rparr>))
      else Inl ValueError)"

definition alphabet :: string where
  "alphabet = ''abcdefghijklmnopqrstuvwxyzABCDEFGHIJKLMNOPQRSTUVWXYZ0123456789_-+=@#%&$!*''"

definition scrambled_token :: "'g pyrandom \<Rightarrow> int \<Rightarrow> int \<Rightarrow> 'g world \<Rightarrow> py_error + (string \<times> 'g world)" where
  "scrambled_token R minlen maxlen w =
     (let minlen' = max 1 minlen;
          maxlen' = max minlen' maxlen
      in case py_randint R minlen' maxlen' w of
           Inl e \<Rightarrow> Inl e
         | Inr (len, w1) \<Rightarrow>
            (let (idxs, g) = choices R (length alphabet) (nat len) (rng w1)
             in Inr (map (\<lambda>i. alphabet ! i) idxs, w1\<lparr> rng := g \<rparr>)))"

definition mutate_string :: "'g pyrandom \<Rightarrow> string \<Rightarrow> int \<Rightarrow> int \<Rightarrow> 'g world \<Rightarrow> py_error + (string \<times> 'g world)" where
  "mutate_string R base minlen maxlen w = scrambled_token R minlen maxlen w"

text \<open>The rendering of a number with the decimal separator (lines 76, 78 and 94).\<close>

definition with_separator :: "string \<Rightarrow> string \<Rightarrow> string" where
  "with_separator decimal_sep out = (if decimal_sep = '','' then replace_point decimal_sep out else out)"

text \<open>Lines 54-57: the bounds of an integer field.\<close>

definition integer_bounds :: "FieldConstraint \<Rightarrow> py_error + (int \<times> int)" where
  "integer_bounds c =
     (case (case min_value c of None \<Rightarrow> Inr 0 | Some x \<Rightarrow> int_of_float x) of
        Inl e \<Rightarrow> Inl e
      | Inr low \<Rightarrow>
         (case (case max_value c of None \<Rightarrow> Inr (max (low + 1) 1000) | Some x \<Rightarrow> int_of_float x) of
            Inl e \<Rightarrow> Inl e
          | Inr high \<Rightarrow> Inr (low, if low = high then low + 10 else high)))"

definition generate_integer ::
  "'g pyrandom \<Rightarrow> pylib \<Rightarrow> FieldConstraint \<Rightarrow> 'g world \<Rightarrow> py_error + (string \<times> 'g world)" where
  "generate_integer R L c w =
     (let allowed_ints = parsed_allowed_numbers (allowed_values c) (int_of_str L) in
      case integer_bounds c of
        Inl e \<Rightarrow> Inl e
      | Inr (low, high) \<Rightarrow>
         if allowed_ints \<noteq> [] then
           (let (pick, w1) = choice R allowed_ints w in
            case py_randint R (- 5) 5 w1 of
              Inl e \<Rightarrow> Inl e
            | Inr (jitter, w2) \<Rightarrow> Inr (str_int (max low (min high (pick + jitter))), w2))
         else
           (case py_randint R low high w of
              Inl e \<Rightarrow> Inl e
            | Inr (v, w1) \<Rightarrow> Inr (str_int v, w1)))"

text \<open>Lines 67-70: the bounds of a float field.\<close>

definition float_bounds :: "FieldConstraint \<Rightarrow> pyfloat \<times> pyfloat" where
  "float_bounds c =
     (let low = (case min_value c of None \<Rightarrow> Finite 0 | Some x \<Rightarrow> x);
          high = (case max_value c of
                    None \<Rightarrow> float_max (float_add low (Finite 1)) (Finite 1000)
                  | Some x \<Rightarrow> x)
      in (low, if float_eq low high then float_add low (Finite 1) else high))"

definition generate_float ::
  "'g pyrandom \<Rightarrow> pylib \<Rightarrow> synthlib \<Rightarrow> FieldConstraint \<Rightarrow> string \<Rightarrow> 'g world
     \<Rightarrow> py_error + (string \<times> 'g world)" where
  "generate_float R L S c decimal_sep w =
     (let allowed_floats = parsed_allowed_numbers (allowed_values c) (float_of_str L);
          (low, high) = float_bounds c
      in if allowed_floats \<noteq> [] then
           (let (pick, w1) = choice R allowed_floats w;
                span_width = float_max (Finite (1 / 10)) (float_mul (float_sub high low) (Finite (5 / 100)));
                (u, g) = uniform R (float_neg span_width) span_width (rng w1);
                candidate = float_max low (float_min high (float_add pick u))
            in Inr (with_separator decimal_sep (format_3f S candidate), w1\<lparr> rng := g \<rparr>))
         else
           (let (u, g) = uniform R low high (rng w)
            in Inr (with_separator decimal_sep (format_3f S u), w\<lparr> rng := g \<rparr>)))"

text \<open>Lines 82-85: the bounds of a decimal field.\<close>

definition decimal_bounds :: "synthlib \<Rightarrow> FieldConstraint \<Rightarrow> py_error + (pydecimal \<times> pydecimal)" where
  "decimal_bounds S c =
     (let low = (case min_value c of None \<Rightarrow> DFinite 0 | Some x \<Rightarrow> Decimal_of_float_str S x);
          high = (case max_value c of None \<Rightarrow> DFinite 1000 | Some x \<Rightarrow> Decimal_of_float_str S x)
      in if dec_eq low high
         then (case dec_add low (DFinite 1) of Inl e \<Rightarrow> Inl e | Inr h \<Rightarrow> Inr (low, h))
         else Inr (low, high))"

text \<open>Lines 86-92: the candidate of a decimal field.\<close>

definition decimal_candidate ::
  "'g pyrandom \<Rightarrow> synthlib \<Rightarrow> pydecimal list \<Rightarrow> pydecimal \<Rightarrow> pydecimal \<Rightarrow> 'g world
     \<Rightarrow> py_error + (pydecimal \<times> 'g world)" where
  "decimal_candidate R S allowed_decimals low high w =
     (case dec_sub high low of
        Inl e \<Rightarrow> Inl e
      | Inr width \<Rightarrow>
         if allowed_decimals \<noteq> [] then
           (let (pick, w1) = choice R allowed_decimals w in
            case dec_mul width (DFinite (5 / 100)) of
              Inl e \<Rightarrow> Inl e
            | Inr span_width \<Rightarrow>
               (let (u, g) = uniform R (float_neg (float_of_Decimal S span_width)) (float_of_Decimal S span_width) (rng w1);
                    w2 = w1\<lparr> rng := g \<rparr>
                in case dec_add pick (Decimal_of_float S u) of
                     Inl e \<Rightarrow> Inl e
                   | Inr cand \<Rightarrow>
                      (case dec_max low cand of
                         Inl e \<Rightarrow> Inl e
                       | Inr m \<Rightarrow>
                          (case dec_min high m of
                             Inl e \<Rightarrow> Inl e
                           | Inr clamped \<Rightarrow> Inr (clamped, w2)))))
         else
           (let (u, g) = random R (rng w) in
            case dec_mul width (Decimal_of_draw S u) of
              Inl e \<Rightarrow> Inl e
            | Inr part \<Rightarrow>
               (case dec_add low part of
                  Inl e \<Rightarrow> Inl e
                | Inr cand \<Rightarrow> Inr (cand, w\<lparr> rng := g \<rparr>))))"

definition generate_decimal ::
  "'g pyrandom \<Rightarrow> pylib \<Rightarrow> synthlib \<Rightarrow> FieldConstraint \<Rightarrow> string \<Rightarrow> 'g world
     \<Rightarrow> py_error + (string \<times> 'g world)" where
  "generate_decimal R L S c decimal_sep w =
     (let allowed_decimals = parsed_allowed_numbers (allowed_values c) (Decimal_of_str L) in
      case decimal_bounds S c of
        Inl e \<Rightarrow> Inl e
      | Inr (low, high) \<Rightarrow>
         (case decimal_candidate R S allowed_decimals low high w of
            Inl e \<Rightarrow> Inl e
          | Inr (candidate, w1) \<Rightarrow>
             (case quantize_format S candidate of
                Inl e \<Rightarrow> Inl e
              | Inr out \<Rightarrow> Inr (with_separator decimal_sep out, w1))))"

text \<open>
  Lines 97-102: the window of a date field. A bound is used when the string is set and
  not empty; \<open>datetime.now()\<close> is called twice in every case.
\<close>

definition bound_given :: "string option \<Rightarrow> bool" where
  "bound_given b = (case b of None \<Rightarrow> False | Some s \<Rightarrow> s \<noteq> [])"

definition parse_bound :: "pylib \<Rightarrow> string option \<Rightarrow> datetime \<Rightarrow> py_error + datetime" where
  "parse_bound L b dflt =
     (case b of
        None \<Rightarrow> Inr dflt
      | Some s \<Rightarrow>
         if s = [] then Inr dflt
         else (case fromisoformat L s of None \<Rightarrow> Inl ValueError | Some dt \<Rightarrow> Inr dt))"

definition date_window ::
  "pylib \<Rightarrow> FieldConstraint \<Rightarrow> 'g world \<Rightarrow> py_error + ((datetime \<times> datetime) \<times> 'g world)" where
  "date_window L c w =
     (let (n1, w1) = now w in
      case datetime_shift n1 (- (365 * 86400000000)) of
        Inl e \<Rightarrow> Inl e
      | Inr default_start \<Rightarrow>
         (let (default_end, w2) = now w1 in
          case parse_bound L (date_min c) default_start of
            Inl e \<Rightarrow> Inl e
          | Inr start \<Rightarrow>
             (case parse_bound L (date_max c) default_end of
                Inl e \<Rightarrow> Inl e
              | Inr end0 \<Rightarrow>
                 (case datetime_lt start end0 of
                    Inl e \<Rightarrow> Inl e
                  | Inr before \<Rightarrow>
                     if before then Inr ((start, end0), w2)
                     else (case datetime_shift start 86400000000 of
                             Inl e \<Rightarrow> Inl e
                           | Inr end1 \<Rightarrow> Inr ((start, end1), w2))))))"

definition generate_date ::
  "'g pyrandom \<Rightarrow> pylib \<Rightarrow> synthlib \<Rightarrow> FieldConstraint \<Rightarrow> 'g world
     \<Rightarrow> py_error + (string \<times> 'g world)" where
  "generate_date R L S c w =
     (case date_window L c w of
        Inl e \<Rightarrow> Inl e
      | Inr ((start, end), w1) \<Rightarrow>
         (case datetime_diff end start of
            Inl e \<Rightarrow> Inl e
          | Inr delta \<Rightarrow>
             (let delta_seconds = (if delta < 0 then - ((- delta) div 1000000) else delta div 1000000) in
              case py_randint R 0 (max 1 delta_seconds) w1 of
                Inl e \<Rightarrow> Inl e
              | Inr (offset, w2) \<Rightarrow>
                 (case datetime_shift start (offset * 1000000) of
                    Inl e \<Rightarrow> Inl e
                  | Inr sample_dt \<Rightarrow>
                     if ftype c = DATE then Inr (date_isoformat S sample_dt, w2)
                     else Inr (seconds_isoformat S sample_dt, w2)))))"

text \<open>Lines 110-121: strings and every other type. \<open>x or y\<close> takes \<open>y\<close> for \<open>None\<close> and for 0.\<close>

definition int_or :: "int option \<Rightarrow> int \<Rightarrow> int" where
  "int_or x y = (case x of None \<Rightarrow> y | Some v \<Rightarrow> if v = 0 then y else v)"

definition generate_string ::
  "'g pyrandom \<Rightarrow> FieldConstraint \<Rightarrow> 'g world \<Rightarrow> py_error + (string \<times> 'g world)" where
  "generate_string R c w =
     (case allowed_values c of
        Some (v # vs) \<Rightarrow>
          (let (candidate, w1) = choice R (v # vs) w;
               minlen = int_or (min_length c) (max 1 (int (length candidate)));
               maxlen = int_or (max_length c) (max minlen (int (length candidate) + 8))
           in mutate_string R candidate minlen maxlen w1)
      | _ \<Rightarrow>
          (let minlen = int_or (min_length c) 8;
               maxlen = int_or (max_length c) (max (minlen + 8) 24);
               maxlen' = (if maxlen < minlen then minlen else maxlen)
           in scrambled_token R minlen maxlen' w))"

definition generate_value ::
  "'g pyrandom \<Rightarrow> pylib \<Rightarrow> synthlib \<Rightarrow> FieldConstraint \<Rightarrow> string \<Rightarrow> 'g world
     \<Rightarrow> py_error + (string \<times> 'g world)" where
  "generate_value R L S c decimal_sep w =
     (let (u, g) = random R (rng w); w1 = w\<lparr> rng := g \<rparr> in
      if u < null_probability c \<and> nullable c then Inr ([], w1)
      else if ftype c = BOOLEAN then
        (let (b, w2) = choice R [''true'', ''false''] w1 in Inr (b, w2))
      else if ftype c = INTEGER then generate_integer R L c w1
      else if ftype c = FLOAT then generate_float R L S c decimal_sep w1
      else if ftype c = DECIMAL then generate_decimal R L S c decimal_sep w1
      else if ftype c \<in> {DATE, DATETIME} then generate_date R L S c w1
      else generate_string R c w1)"

section \<open>Synthesis: rows and the CSV text (generate_rows, profile_to_csv)\<close>

definition rows_limit_error :: py_error where
  "rows_limit_error = HTTPException 400 ''Requested rows exceed 100k limit''"

fun generate_row ::
  "'g pyrandom \<Rightarrow> pylib \<Rightarrow> synthlib \<Rightarrow> FieldConstraint list \<Rightarrow> string \<Rightarrow> 'g world
     \<Rightarrow> py_error + (string list \<times> 'g world)" where
  "generate_row R L S [] decimal_sep w = Inr ([], w)"
| "generate_row R L S (c # cs) decimal_sep w =
     (case generate_value R L S c decimal_sep w of
        Inl e \<Rightarrow> Inl e
      | Inr (v, w1) \<Rightarrow>
         (case generate_row R L S cs decimal_sep w1 of
            Inl e \<Rightarrow> Inl e
          | Inr (vs, w2) \<Rightarrow> Inr (v # vs, w2)))"

text \<open>\<open>for _ in range(rows)\<close>, with the rows still to produce as a natural number.\<close>

fun rows_loop ::
  "'g pyrandom \<Rightarrow> pylib \<Rightarrow> synthlib \<Rightarrow> FieldConstraint list \<Rightarrow> string \<Rightarrow> nat \<Rightarrow> 'g world
     \<Rightarrow> py_error + (string list list \<times> 'g world)" where
  "rows_loop R L S cs decimal_sep 0 w = Inr ([], w)"
| "rows_loop R L S cs decimal_sep (Suc n) w =
     (case generate_row R L S cs decimal_sep w of
        Inl e \<Rightarrow> Inl e
      | Inr (r, w1) \<Rightarrow>
         (case rows_loop R L S cs decimal_sep n w1 of
            Inl e \<Rightarrow> Inl e
          | Inr (rs, w2) \<Rightarrow> Inr (r # rs, w2)))"

text \<open>\<open>x or "."\<close> for a string.\<close>

definition str_or :: "string \<Rightarrow> string \<Rightarrow> string" where
  "str_or x y = (if x = [] then y else x)"

definition generate_rows ::
  "'g pyrandom \<Rightarrow> pylib \<Rightarrow> synthlib \<Rightarrow> ProfileResult \<Rightarrow> int \<Rightarrow> int option \<Rightarrow> 'g world
     \<Rightarrow> py_error + (string list list \<times> 'g world)" where
  "generate_rows R L S profile rows sd w =
     (if rows > int MAX_ROWS then Inl rows_limit_error
      else
        let w1 = (case sd of None \<Rightarrow> w | Some s \<Rightarrow> w\<lparr> rng := seed R s \<rparr>);
            decimal_sep = str_or (decimal_separator profile) ''.''
        in rows_loop R L S (pfields profile) decimal_sep (nat rows) w1)"

text \<open>
  \<open>csv.writer(output, delimiter=profile.delimiter)\<close> accepts a delimiter of one character
  only. The header goes out first, then the rows as they are generated.
\<close>

definition profile_to_csv ::
  "'g pyrandom \<Rightarrow> pylib \<Rightarrow> synthlib \<Rightarrow> ProfileResult \<Rightarrow> int \<Rightarrow> int option \<Rightarrow> string option
     \<Rightarrow> 'g world \<Rightarrow> py_error + (string \<times> 'g world)" where
  "profile_to_csv R L S profile rows sd decimal_separator_arg w =
     (if length (delimiter profile) \<noteq> 1 then Inl TypeError
      else
        let dec_sep = (case decimal_separator_arg of
                         None \<Rightarrow> str_or (decimal_separator profile) ''.''
                       | Some d \<Rightarrow> if d = [] then str_or (decimal_separator profile) ''.'' else d);
            header = writerow S (delimiter profile) (map name (pfields profile))
        in case generate_rows R L S profile rows sd w of
             Inl e \<Rightarrow> Inl e
           | Inr (rs, w1) \<Rightarrow>
              (let data = header @ concat (map (writerow S (delimiter profile)) rs);
                   data' = (if dec_sep \<noteq> ''.'' then replace_point dec_sep data else data)
               in case encode S (str_or (encoding profile) ''utf-8'') data' of
                    Inl e \<Rightarrow> Inl e
                  | Inr bytes \<Rightarrow> Inr (bytes, w1)))"

section \<open>Notions used to state the properties\<close>

fun scan_rows :: "pylib \<Rightarrow> string list \<Rightarrow> csv_row list \<Rightarrow> scan_state \<Rightarrow> py_error + scan_state" where
  "scan_rows L hs [] st = Inr st"
| "scan_rows L hs (row # rest) st =
     (case scan_row L row hs st of Inl e \<Rightarrow> Inl e | Inr st' \<Rightarrow> scan_rows L hs rest st')"

definition idx_value :: "nat option \<Rightarrow> nat" where
  "idx_value idx = (case idx of None \<Rightarrow> 0 | Some i \<Rightarrow> i)"

definition sampled_rows :: "ParseMode \<Rightarrow> csv_row list \<Rightarrow> csv_row list" where
  "sampled_rows m rows = (case sample_limit_of m of None \<Rightarrow> rows | Some l \<Rightarrow> take l rows)"

definition column :: "string \<Rightarrow> csv_row list \<Rightarrow> string list" where
  "column h rows = map (\<lambda>row. cell row h) rows"

fun register_all :: "pylib \<Rightarrow> FieldStats \<Rightarrow> string list \<Rightarrow> py_error + FieldStats" where
  "register_all L s [] = Inr s"
| "register_all L s (v # vs) =
     (case register L s v (detect_type L v) of
        Inl e \<Rightarrow> Inl e
      | Inr s' \<Rightarrow> register_all L s' vs)"

definition cell_seps :: "csv_row \<Rightarrow> string list \<Rightarrow> string set" where
  "cell_seps row hs = {sep. \<exists>h \<in> set hs. detect_decimal_separator (cell row h) = Some sep}"

text \<open>
  \<open>separator_seen\<close> describes what the loop of \<open>profile_from_text\<close> collects in
  \<open>decimal_separators\<close>: the separator of every cell on which \<open>detect_decimal_separator\<close> gives
  one, whatever type \<open>detect_type\<close> assigns to the cell. \<open>numeric_separator_seen\<close> follows the
  wording of the specification, which counts the cells classified as a number only.
\<close>

definition separator_seen :: "string \<Rightarrow> string list \<Rightarrow> csv_row list \<Rightarrow> bool" where
  "separator_seen sep hs rows =
     (\<exists>row \<in> set rows. \<exists>h \<in> set hs. detect_decimal_separator (cell row h) = Some sep)"

definition is_numeric :: "FieldType \<Rightarrow> bool" where
  "is_numeric t = (t = INTEGER \<or> t = FLOAT \<or> t = DECIMAL)"

definition numeric_separator_seen :: "pylib \<Rightarrow> string \<Rightarrow> string list \<Rightarrow> csv_row list \<Rightarrow> bool" where
  "numeric_separator_seen L sep hs rows =
     (\<exists>row \<in> set rows. \<exists>h \<in> set hs.
        is_numeric (detect_type L (cell row h)) \<and> detect_decimal_separator (cell row h) = Some sep)"

definition type_count :: "pylib \<Rightarrow> FieldType \<Rightarrow> string list \<Rightarrow> nat" where
  "type_count L t vs = length (filter (\<lambda>v. detect_type L v = t) vs)"

fun decl_index :: "FieldType \<Rightarrow> nat" where
  "decl_index STRING = 0"
| "decl_index INTEGER = 1"
| "decl_index FLOAT = 2"
| "decl_index DECIMAL = 3"
| "decl_index BOOLEAN = 4"
| "decl_index DATE = 5"
| "decl_index DATETIME = 6"
| "decl_index EMPTY = 7"

definition date_cell :: "pylib \<Rightarrow> string list \<Rightarrow> csv_row \<Rightarrow> bool" where
  "date_cell L hs row = (\<exists>h \<in> set hs. detect_type L (cell row h) \<in> {DATE, DATETIME})"

definition stats_cover :: "string list \<Rightarrow> scan_state \<Rightarrow> bool" where
  "stats_cover hs st = (\<forall>h \<in> set hs. fst st h \<noteq> None)"

definition profile_result ::
  "string \<Rightarrow> string \<Rightarrow> nat \<Rightarrow> string set \<Rightarrow> FieldConstraint list \<Rightarrow> ProfileResult" where
  "profile_result d e n seps cs =
     \<lparr> row_count = n, pfields = cs, encoding = e, delimiter = d,
       decimal_separator = (if '','' \<in> seps \<and> ''.'' \<notin> seps then '','' else ''.'') \<rparr>"

definition lengths_ordered :: "FieldStats \<Rightarrow> bool" where
  "lengths_ordered s = (case min_len s of None \<Rightarrow> True | Some a \<Rightarrow> a \<le> max_len s)"

definition values_ordered :: "FieldStats \<Rightarrow> bool" where
  "values_ordered s =
     (case (min_val s, max_val s) of
        (None, None) \<Rightarrow> True
      | (Some x, Some y) \<Rightarrow> float_le x y \<or> (x = NaN \<and> y = NaN)
      | (None, Some y) \<Rightarrow> False
      | (Some x, None) \<Rightarrow> False)"

definition dates_ordered :: "FieldStats \<Rightarrow> bool" where
  "dates_ordered s =
     (case (min_date s, max_date s) of
        (None, None) \<Rightarrow> True
      | (Some a, Some b) \<Rightarrow> datetime_lt b a = Inr False
      | (None, Some b) \<Rightarrow> False
      | (Some a, None) \<Rightarrow> False)"

definition bounds_ordered :: "FieldStats \<Rightarrow> bool" where
  "bounds_ordered s = (lengths_ordered s \<and> values_ordered s \<and> dates_ordered s)"

definition all_stats :: "(FieldStats \<Rightarrow> bool) \<Rightarrow> scan_state \<Rightarrow> bool" where
  "all_stats P st = (\<forall>h fs. fst st h = Some fs \<longrightarrow> P fs)"

text \<open>
  Notions for the reproducibility of synthesis. A field is \<open>clock_free\<close> when
  \<open>_generate_value\<close> takes none of its bounds from \<open>datetime.now()\<close>: it is not of type date
  or datetime, or both \<open>date_min\<close> and \<open>date_max\<close> are given. \<open>clock_ok\<close> says that the clock of
  the process reads a time from which a year can be subtracted (no earlier than the year 2).
\<close>

definition clock_free :: "FieldConstraint \<Rightarrow> bool" where
  "clock_free c =
     (ftype c \<in> {DATE, DATETIME} \<longrightarrow> bound_given (date_min c) \<and> bound_given (date_max c))"

definition clock_ok :: "'g world \<Rightarrow> bool" where
  "clock_ok w = (\<forall>k. 365 * 86400000000 \<le> wall (clock w k) \<and> wall (clock w k) \<le> max_wall)"

text \<open>
  Two process states that agree on the generator, and two results of a synthesis function
  that agree on the error or on the value and leave such states behind.
\<close>

definition same_draws :: "'g world \<Rightarrow> 'g world \<Rightarrow> bool" where
  "same_draws w w' = (rng w = rng w' \<and> clock_ok w \<and> clock_ok w')"

definition same_outcome :: "py_error + 'a \<times> 'g world \<Rightarrow> py_error + 'a \<times> 'g world \<Rightarrow> bool" where
  "same_outcome r r' =
     (case r of
        Inl e \<Rightarrow> r' = Inl e
      | Inr (v, a) \<Rightarrow> (case r' of Inl e \<Rightarrow> False | Inr (v', a') \<Rightarrow> v = v' \<and> same_draws a a'))"

section \<open>A reference instance of the library interface\<close>

text \<open>
  To run the model on concrete inputs the library parameters need values. \<open>ref_lib\<close> reads
  plain ASCII numerals (an optional sign, digits, an optional fractional part), the words
  \<open>nan\<close>, \<open>inf\<close> and \<open>infinity\<close>, and the timestamps \<open>YYYY-MM-DD\<close> and
  \<open>YYYY-MM-DDTHH:MM:SS\<close>; it rejects every other text. On these inputs it agrees with
  CPython. It is used for examples only.
\<close>

definition digits_val :: "string \<Rightarrow> nat" where
  "digits_val ds = foldl (\<lambda>n c. 10 * n + (of_char c - 48)) 0 ds"

definition ref_int :: "string \<Rightarrow> int option" where
  "ref_int s =
     (let t = strip s; d = strip_sign t in
      if d \<noteq> [] \<and> list_all is_digit d
      then Some (if hd t = CHR ''-'' then - int (digits_val d) else int (digits_val d))
      else None)"

definition ref_number :: "string \<Rightarrow> rat option" where
  "ref_number d =
     (let ip = takeWhile is_digit d; r = dropWhile is_digit d in
      if r = [] then (if ip = [] then None else Some (of_nat (digits_val ip)))
      else if hd r = CHR ''.'' \<and> list_all is_digit (tl r) \<and> (ip \<noteq> [] \<or> tl r \<noteq> [])
      then Some (of_nat (digits_val (ip @ tl r)) / of_nat (10 ^ length (tl r)))
      else None)"

definition ref_float :: "string \<Rightarrow> pyfloat option" where
  "ref_float s =
     (let t = lower (strip s); d = strip_sign t; neg = (t \<noteq> [] \<and> hd t = CHR ''-'') in
      if d = ''nan'' then Some NaN
      else if d = ''inf'' \<or> d = ''infinity'' then Some (if neg then NegInf else PosInf)
      else case ref_number d of
             None \<Rightarrow> None
           | Some q \<Rightarrow> Some (Finite (if neg then - q else q)))"

definition ref_Decimal :: "string \<Rightarrow> pydecimal option" where
  "ref_Decimal s =
     (case ref_float s of
        None \<Rightarrow> None
      | Some NaN \<Rightarrow> Some DNaN
      | Some PosInf \<Rightarrow> Some DPosInf
      | Some NegInf \<Rightarrow> Some DNegInf
      | Some (Finite q) \<Rightarrow> Some (DFinite q))"

section \<open>Reference instances for synthesis\<close>

text \<open>
  A small linear congruential generator stands in for Python's generator, so that the
  synthesis functions can be run; no theorem about the code depends on it.
\<close>

definition lcg_next :: "nat \<Rightarrow> nat" where
  "lcg_next g = (g * 1103515245 + 12345) mod 2147483648"

fun lcg_indices :: "nat \<Rightarrow> nat \<Rightarrow> nat \<Rightarrow> nat list \<times> nat" where
  "lcg_indices n 0 g = ([], g)"
| "lcg_indices n (Suc k) g =
     (let g1 = lcg_next g; (is, g2) = lcg_indices n k g1 in ((g1 mod n) # is, g2))"

definition ref_random :: "nat pyrandom" where
  "ref_random =
     \<lparr> seed = (\<lambda>s. nat \<bar>s\<bar> mod 2147483648),
       random = (\<lambda>g. (of_nat (lcg_next g) / 2147483648, lcg_next g)),
       randbelow = (\<lambda>n g. (lcg_next g mod n, lcg_next g)),
       randint = (\<lambda>a b g. (a + int (lcg_next g mod nat (b - a + 1)), lcg_next g)),
       uniform = (\<lambda>a b g. (float_add a (float_mul (float_sub b a)
                                (Finite (of_nat (lcg_next g) / 2147483648))), lcg_next g)),
       choices = lcg_indices \<rparr>"

text \<open>
  The proleptic Gregorian calendar: day 0 is 0001-01-01. \<open>civil_of_days\<close> gives year, month
  and day of a day number, \<open>days_of_civil\<close> is its inverse.
\<close>

definition civil_of_days :: "int \<Rightarrow> int \<times> int \<times> int" where
  "civil_of_days n =
     (let z = n + 306;
          era = z div 146097;
          doe = z mod 146097;
          yoe = (doe - doe div 1460 + doe div 36524 - doe div 146096) div 365;
          doy = doe - (365 * yoe + yoe div 4 - yoe div 100);
          mp = (5 * doy + 2) div 153;
          d = doy - (153 * mp + 2) div 5 + 1;
          m = (if mp < 10 then mp + 3 else mp - 9);
          y = yoe + era * 400 + (if m \<le> 2 then 1 else 0)
      in (y, m, d))"

definition days_of_civil :: "int \<Rightarrow> int \<Rightarrow> int \<Rightarrow> int" where
  "days_of_civil y m d =
     (let y' = (if m \<le> 2 then y - 1 else y);
          era = y' div 400;
          yoe = y' mod 400;
          doy = (153 * (if m > 2 then m - 3 else m + 9) + 2) div 5 + d - 1;
          doe = yoe * 365 + yoe div 4 - yoe div 100 + doy
      in era * 146097 + doe - 306)"

definition pad :: "nat \<Rightarrow> int \<Rightarrow> string" where
  "pad k i = replicate (k - length (str_int i)) CHR ''0'' @ str_int i"

definition ref_date_isoformat :: "datetime \<Rightarrow> string" where
  "ref_date_isoformat dt =
     (let (y, m, d) = civil_of_days (wall dt div 86400000000)
      in pad 4 y @ ''-'' @ pad 2 m @ ''-'' @ pad 2 d)"

definition ref_time_text :: "int \<Rightarrow> string" where
  "ref_time_text us =
     (let s = (us mod 86400000000) div 1000000
      in pad 2 (s div 3600) @ '':'' @ pad 2 ((s mod 3600) div 60) @ '':'' @ pad 2 (s mod 60))"

definition ref_offset_text :: "int option \<Rightarrow> string" where
  "ref_offset_text off =
     (case off of
        None \<Rightarrow> []
      | Some us \<Rightarrow>
          (let s = \<bar>us\<bar> div 1000000
           in (if us < 0 then ''-'' else ''+'') @ pad 2 (s div 3600) @ '':''
              @ pad 2 ((s mod 3600) div 60)
              @ (if s mod 60 = 0 then [] else '':'' @ pad 2 (s mod 60))))"

definition ref_seconds_isoformat :: "datetime \<Rightarrow> string" where
  "ref_seconds_isoformat dt =
     ref_date_isoformat dt @ ''T'' @ ref_time_text (wall dt) @ ref_offset_text (utcoffset dt)"

definition ref_isoformat :: "datetime \<Rightarrow> string" where
  "ref_isoformat dt =
     ref_date_isoformat dt @ ''T'' @ ref_time_text (wall dt)
       @ (if wall dt mod 1000000 = 0 then [] else ''.'' @ pad 6 (wall dt mod 1000000))
       @ ref_offset_text (utcoffset dt)"

text \<open>Reading \<open>YYYY-MM-DD\<close> and \<open>YYYY-MM-DDTHH:MM:SS\<close> (zero-padded, a valid date and time).\<close>

definition days_in_month :: "int \<Rightarrow> int \<Rightarrow> int" where
  "days_in_month y m =
     (if m = 2 then (if y mod 4 = 0 \<and> (y mod 100 \<noteq> 0 \<or> y mod 400 = 0) then 29 else 28)
      else if m \<in> {4, 6, 9, 11} then 30 else 31)"

definition digits_at :: "string \<Rightarrow> nat \<Rightarrow> nat \<Rightarrow> int option" where
  "digits_at s i k =
     (let ds = take k (drop i s) in
      if length ds = k \<and> list_all is_digit ds then Some (int (digits_val ds)) else None)"

definition ref_read_date :: "string \<Rightarrow> int option" where
  "ref_read_date s =
     (case (digits_at s 0 4, digits_at s 5 2, digits_at s 8 2) of
        (Some y, Some m, Some d) \<Rightarrow>
          if length s = 10 \<and> s ! 4 = CHR ''-'' \<and> s ! 7 = CHR ''-'' \<and> 1 \<le> y \<and> 1 \<le> m \<and> m \<le> 12
             \<and> 1 \<le> d \<and> d \<le> days_in_month y m
          then Some (days_of_civil y m d * 86400000000) else None
      | _ \<Rightarrow> None)"

definition ref_read_time :: "string \<Rightarrow> int option" where
  "ref_read_time s =
     (case (digits_at s 0 2, digits_at s 3 2, digits_at s 6 2) of
        (Some h, Some m, Some sec) \<Rightarrow>
          if length s = 8 \<and> s ! 2 = CHR '':'' \<and> s ! 5 = CHR '':'' \<and> h < 24 \<and> m < 60 \<and> sec < 60
          then Some ((h * 3600 + m * 60 + sec) * 1000000) else None
      | _ \<Rightarrow> None)"

definition ref_read_datetime :: "char \<Rightarrow> string \<Rightarrow> datetime option" where
  "ref_read_datetime sep s =
     (if length s = 19 \<and> s ! 10 = sep then
        (case (ref_read_date (take 10 s), ref_read_time (drop 11 s)) of
           (Some d, Some t) \<Rightarrow> Some \<lparr> wall = d + t, utcoffset = None \<rparr>
         | _ \<Rightarrow> None)
      else None)"

definition ref_strptime :: "string \<Rightarrow> string \<Rightarrow> datetime option" where
  "ref_strptime txt fmt =
     (if fmt = ''%Y-%m-%dT%H:%M:%S'' then ref_read_datetime CHR ''T'' txt
      else if fmt = ''%Y-%m-%d %H:%M:%S'' then ref_read_datetime CHR '' '' txt
      else if fmt = ''%Y-%m-%d'' then
        map_option (\<lambda>d. \<lparr> wall = d, utcoffset = None \<rparr>) (ref_read_date txt)
      else None)"

definition ref_fromisoformat :: "string \<Rightarrow> datetime option" where
  "ref_fromisoformat txt =
     (case ref_read_date txt of
        Some d \<Rightarrow> Some \<lparr> wall = d, utcoffset = None \<rparr>
      | None \<Rightarrow> ref_read_datetime CHR ''T'' txt)"

text \<open>Three fractional digits, rounding half to even.\<close>

definition round_half_even :: "rat \<Rightarrow> int" where
  "round_half_even q =
     (let f = \<lfloor>q\<rfloor>; r = q - of_int f in
      if r < 1 / 2 then f else if r > 1 / 2 then f + 1 else if even f then f else f + 1)"

definition fixed3 :: "rat \<Rightarrow> string" where
  "fixed3 q =
     (let n = round_half_even (\<bar>q\<bar> * 1000)
      in (if q < 0 then ''-'' else []) @ str_int (n div 1000) @ ''.'' @ pad 3 (n mod 1000))"

definition ref_format_3f :: "pyfloat \<Rightarrow> string" where
  "ref_format_3f x =
     (case x of Finite q \<Rightarrow> fixed3 q | PosInf \<Rightarrow> ''inf'' | NegInf \<Rightarrow> ''-inf'' | NaN \<Rightarrow> ''nan'')"

definition ref_quantize_format :: "pydecimal \<Rightarrow> py_error + string" where
  "ref_quantize_format x =
     (case x of
        DFinite q \<Rightarrow> Inr (fixed3 q)
      | DNaN \<Rightarrow> Inr ''NaN''
      | DPosInf \<Rightarrow> Inl InvalidOperation
      | DNegInf \<Rightarrow> Inl InvalidOperation)"

definition decimal_of_pyfloat :: "pyfloat \<Rightarrow> pydecimal" where
  "decimal_of_pyfloat x =
     (case x of Finite q \<Rightarrow> DFinite q | PosInf \<Rightarrow> DPosInf | NegInf \<Rightarrow> DNegInf | NaN \<Rightarrow> DNaN)"

definition pyfloat_of_decimal :: "pydecimal \<Rightarrow> pyfloat" where
  "pyfloat_of_decimal x =
     (case x of DFinite q \<Rightarrow> Finite q | DPosInf \<Rightarrow> PosInf | DNegInf \<Rightarrow> NegInf | DNaN \<Rightarrow> NaN)"

text \<open>The \<open>excel\<close> dialect of \<open>csv.writer\<close>: minimal quoting, lines end in CR LF.\<close>

definition csv_field :: "string \<Rightarrow> string \<Rightarrow> string" where
  "csv_field d f =
     (if \<exists>c \<in> set f. c \<in> set d \<or> c = CHR 0x22 \<or> c = CHR 0x0D \<or> c = CHR 0x0A
      then [CHR 0x22] @ concat (map (\<lambda>c. if c = CHR 0x22 then [c, c] else [c]) f) @ [CHR 0x22]
      else f)"

fun join :: "string \<Rightarrow> string list \<Rightarrow> string" where
  "join d [] = []"
| "join d [f] = f"
| "join d (f # fs) = f @ d @ join d fs"

definition ref_writerow :: "string \<Rightarrow> string list \<Rightarrow> string" where
  "ref_writerow d row =
     (if row = [[]] then [CHR 0x22, CHR 0x22] else join d (map (csv_field d) row))
       @ [CHR 0x0D, CHR 0x0A]"

text \<open>\<open>str.encode\<close> for UTF-8 and Latin-1, on code points below 256.\<close>

definition ref_encode :: "string \<Rightarrow> string \<Rightarrow> py_error + string" where
  "ref_encode enc s =
     (if enc = ''utf-8'' then
        Inr (concat (map (\<lambda>c. if (of_char c :: nat) < 128 then [c]
                               else [char_of (192 + (of_char c :: nat) div 64),
                                     char_of (128 + (of_char c :: nat) mod 64)]) s))
      else if enc = ''latin-1'' then Inr s
      else Inl LookupError)"

definition ref_synthlib :: synthlib where
  "ref_synthlib =
     \<lparr> Decimal_of_float_str = decimal_of_pyfloat, Decimal_of_float = decimal_of_pyfloat,
       float_of_Decimal = pyfloat_of_decimal, Decimal_of_draw = DFinite,
       quantize_format = ref_quantize_format, format_3f = ref_format_3f,
       date_isoformat = ref_date_isoformat, seconds_isoformat = ref_seconds_isoformat,
       writerow = ref_writerow, encode = ref_encode \<rparr>"

text \<open>A process whose generator is in state \<open>g\<close> and whose clock always reads \<open>t\<close>.\<close>

definition world_at :: "nat \<Rightarrow> datetime \<Rightarrow> nat world" where
  "world_at g t = \<lparr> rng = g, ticks = 0, clock = (\<lambda>k. t) \<rparr>"

definition ref_lib :: pylib where
  "ref_lib =
     \<lparr> strptime = ref_strptime, fromisoformat = ref_fromisoformat, int_of_str = ref_int,
       Decimal_of_str = ref_Decimal, float_of_str = ref_float, isoformat = ref_isoformat \<rparr>"

section \<open>Example inputs\<close>

text \<open>The rows of the CSV text \<open>a,b,c / 1,hello,TRUE / 2,world,false / ,hi,\<close> as the reader yields them.\<close>

definition example_headers :: "string list" where
  "example_headers = [''a'', ''b'', ''c'']"

definition example_rows :: "csv_row list" where
  "example_rows =
     [[''a'' \<mapsto> ''1'', ''b'' \<mapsto> ''hello'', ''c'' \<mapsto> ''TRUE''],
      [''a'' \<mapsto> ''2'', ''b'' \<mapsto> ''world'', ''c'' \<mapsto> ''false''],
      [''a'' \<mapsto> '''', ''b'' \<mapsto> ''hi'', ''c'' \<mapsto> '''']]"

text \<open>A file of \<open>MAX_ROWS + 1\<close> data rows, one column, every cell \<open>x\<close>.\<close>

definition big_rows :: "csv_row list" where
  "big_rows = replicate (MAX_ROWS + 1) [''a'' \<mapsto> ''x'']"

text \<open>A column \<open>n\<close> of 51 rows holding the 51 distinct values 10 to 60.\<close>

definition cap_values :: "string list" where
  "cap_values =
     [''10'', ''11'', ''12'', ''13'', ''14'', ''15'', ''16'', ''17'', ''18'', ''19'',
      ''20'', ''21'', ''22'', ''23'', ''24'', ''25'', ''26'', ''27'', ''28'', ''29'',
      ''30'', ''31'', ''32'', ''33'', ''34'', ''35'', ''36'', ''37'', ''38'', ''39'',
      ''40'', ''41'', ''42'', ''43'', ''44'', ''45'', ''46'', ''47'', ''48'', ''49'',
      ''50'', ''51'', ''52'', ''53'', ''54'', ''55'', ''56'', ''57'', ''58'', ''59'',
      ''60'']"

definition cap_rows :: "csv_row list" where
  "cap_rows = map (\<lambda>v. [''n'' \<mapsto> v]) cap_values"


text \<open>A profile of one integer field with the bounds 10 and 20 and three allowed values.\<close>

definition bounded_field :: FieldConstraint where
  "bounded_field =
     \<lparr> name = ''n'', ftype = INTEGER, nullable = False, min_length = Some 2, max_length = Some 2,
       min_value = Some (Finite 10), max_value = Some (Finite 20),
       allowed_values = Some [''11'', ''15'', ''19''], null_fraction = 0,
       date_min = None, date_max = None \<rparr>"


text \<open>The first instant of 2024 and of 2025, as naive timestamps.\<close>

definition new_year_2024 :: datetime where
  "new_year_2024 = \<lparr> wall = days_of_civil 2024 1 1 * 86400000000, utcoffset = None \<rparr>"

definition new_year_2025 :: datetime where
  "new_year_2025 = \<lparr> wall = days_of_civil 2025 1 1 * 86400000000, utcoffset = None \<rparr>"

text \<open>A decimal field with a lower bound of 2000 and no upper bound.\<close>

definition open_decimal_field :: FieldConstraint where
  "open_decimal_field =
     \<lparr> name = ''price'', ftype = DECIMAL, nullable = False, min_length = None, max_length = None,
       min_value = Some (Finite 2000), max_value = None,
       allowed_values = None, null_fraction = 0,
       date_min = None, date_max = None \<rparr>"

text \<open>A date field without bounds, and a date field with both bounds.\<close>

definition open_date_field :: FieldConstraint where
  "open_date_field =
     \<lparr> name = ''d'', ftype = DATE, nullable = False, min_length = None, max_length = None,
       min_value = None, max_value = None, allowed_values = None, null_fraction = 0,
       date_min = None, date_max = None \<rparr>"

definition open_date_profile :: ProfileResult where
  "open_date_profile =
     \<lparr> row_count = 1, pfields = [open_date_field], encoding = ''utf-8'', delimiter = '','',
       decimal_separator = ''.'' \<rparr>"

definition closed_date_field :: FieldConstraint where
  "closed_date_field =
     open_date_field \<lparr> date_min := Some ''2024-01-01'', date_max := Some ''2024-12-31'' \<rparr>"

definition closed_date_profile :: ProfileResult where
  "closed_date_profile =
     \<lparr> row_count = 2, pfields = [bounded_field, closed_date_field], encoding = ''utf-8'',
       delimiter = '','', decimal_separator = ''.'' \<rparr>"

section \<open>The row loop and the per-column view\<close>

lemma row_loop_strict:
  "idx_value idx \<le> MAX_ROWS \<Longrightarrow>
   row_loop L hs None idx rows st =
     (if idx_value idx + length rows \<le> MAX_ROWS
      then (case scan_rows L hs rows st of
              Inl e \<Rightarrow> Inl e
            | Inr st' \<Rightarrow> Inr (st', if rows = [] then idx else Some (idx_value idx + length rows)))
      else (case scan_rows L hs (take (MAX_ROWS - idx_value idx) rows) st of
              Inl e \<Rightarrow> Inl e
            | Inr st' \<Rightarrow> Inl row_limit_error))"
proof (induction rows arbitrary: idx st)
  case Nil
  then show ?case by simp
next
  case (Cons row rest)
  let ?i = "idx_value idx + 1"
  have i: "(case idx of None \<Rightarrow> 1 | Some j \<Rightarrow> j + 1) = ?i"
    by (simp add: idx_value_def split: option.splits)
  show ?case
  proof (cases "?i > MAX_ROWS")
    case True
    with Cons.prems have "idx_value idx = MAX_ROWS" by simp
    with True show ?thesis by (simp add: i Let_def)
  next
    case False
    then have le: "idx_value (Some ?i) \<le> MAX_ROWS" by (simp add: idx_value_def)
    have tk: "take (MAX_ROWS - idx_value idx) (row # rest) = row # take (MAX_ROWS - ?i) rest"
    proof -
      have "MAX_ROWS - idx_value idx = Suc (MAX_ROWS - ?i)" using False by simp
      then show ?thesis by simp
    qed
    show ?thesis
    proof (cases "scan_row L row hs st")
      case (Inl e)
      with False show ?thesis by (simp add: i Let_def tk)
    next
      case (Inr st1)
      have iv: "idx_value (Some ?i) = ?i" by (simp add: idx_value_def)
      have step: "row_loop L hs None idx (row # rest) st = row_loop L hs None (Some ?i) rest st1"
        using False Inr by (simp add: i Let_def)
      show ?thesis
        unfolding step Cons.IH[OF le, of st1] iv tk
        using False Inr by (auto split: sum.splits)
    qed
  qed
qed

lemma row_loop_fast:
  "l \<noteq> 0 \<Longrightarrow> l < MAX_ROWS \<Longrightarrow> idx_value idx \<le> l \<Longrightarrow>
   row_loop L hs (Some l) idx rows st =
     (case scan_rows L hs (take (l - idx_value idx) rows) st of
        Inl e \<Rightarrow> Inl e
      | Inr st' \<Rightarrow> Inr (st', if rows = [] then idx else Some (min (l + 1) (idx_value idx + length rows))))"
proof (induction rows arbitrary: idx st)
  case Nil
  then show ?case by simp
next
  case (Cons row rest)
  let ?i = "idx_value idx + 1"
  have i: "(case idx of None \<Rightarrow> 1 | Some j \<Rightarrow> j + 1) = ?i"
    by (simp add: idx_value_def split: option.splits)
  have nolimit: "\<not> ?i > MAX_ROWS" using Cons.prems by simp
  show ?case
  proof (cases "?i > l")
    case True
    with Cons.prems have "idx_value idx = l" by simp
    with True nolimit show ?thesis using Cons.prems(1) by (simp add: i Let_def)
  next
    case False
    then have le: "idx_value (Some ?i) \<le> l" by (simp add: idx_value_def)
    have tk: "take (l - idx_value idx) (row # rest) = row # take (l - ?i) rest"
    proof -
      have "l - idx_value idx = Suc (l - ?i)" using False by simp
      then show ?thesis by simp
    qed
    show ?thesis
    proof (cases "scan_row L row hs st")
      case (Inl e)
      with False nolimit show ?thesis by (simp add: i Let_def tk)
    next
      case (Inr st1)
      have iv: "idx_value (Some ?i) = ?i" by (simp add: idx_value_def)
      have step: "row_loop L hs (Some l) idx (row # rest) st = row_loop L hs (Some l) (Some ?i) rest st1"
        using False nolimit Inr by (simp add: i Let_def)
      show ?thesis
        unfolding step Cons.IH[OF Cons.prems(1,2) le, of st1] iv tk
        using False Inr by (auto split: sum.splits)
    qed
  qed
qed

lemma scan_cell_Inr:
  assumes "scan_cell L row st h = Inr st'"
  shows "\<exists>fs fs'. fst st h = Some fs
           \<and> register L fs (cell row h) (detect_type L (cell row h)) = Inr fs'
           \<and> fst st' = (fst st)(h \<mapsto> fs')
           \<and> snd st' = snd st \<union> cell_seps row [h]"
  using assms
  by (auto simp: scan_cell_def Let_def cell_seps_def split: option.splits sum.splits)

lemma scan_row_seps:
  "scan_row L row hs st = Inr st' \<Longrightarrow> snd st' = snd st \<union> cell_seps row hs"
proof (induction hs arbitrary: st)
  case Nil
  then show ?case by (simp add: cell_seps_def)
next
  case (Cons h hs)
  from Cons.prems obtain st1 where 1: "scan_cell L row st h = Inr st1"
    and 2: "scan_row L row hs st1 = Inr st'"
    by (auto split: sum.splits)
  from scan_cell_Inr[OF 1] have "snd st1 = snd st \<union> cell_seps row [h]" by blast
  with Cons.IH[OF 2] show ?case by (auto simp: cell_seps_def)
qed

lemma scan_row_column:
  "distinct hs \<Longrightarrow> scan_row L row hs st = Inr st' \<Longrightarrow>
   (\<forall>h. h \<notin> set hs \<longrightarrow> fst st' h = fst st h) \<and>
   (\<forall>h \<in> set hs. \<exists>fs fs'. fst st h = Some fs
        \<and> register L fs (cell row h) (detect_type L (cell row h)) = Inr fs'
        \<and> fst st' h = Some fs')"
proof (induction hs arbitrary: st)
  case Nil
  then show ?case by simp
next
  case (Cons h hs)
  from Cons.prems obtain st1 where 1: "scan_cell L row st h = Inr st1"
    and 2: "scan_row L row hs st1 = Inr st'"
    by (auto split: sum.splits)
  from scan_cell_Inr[OF 1] obtain fs fs' where
    a: "fst st h = Some fs"
    and b: "register L fs (cell row h) (detect_type L (cell row h)) = Inr fs'"
    and c: "fst st1 = (fst st)(h \<mapsto> fs')" by blast
  from Cons.prems(1) have d: "distinct hs" and nh: "h \<notin> set hs" by auto
  note ih = Cons.IH[OF d 2]
  show ?case
  proof (intro conjI allI ballI impI)
    fix k assume "k \<notin> set (h # hs)"
    with ih c show "fst st' k = fst st k" by auto
  next
    fix k assume k: "k \<in> set (h # hs)"
    show "\<exists>fs fs'. fst st k = Some fs
        \<and> register L fs (cell row k) (detect_type L (cell row k)) = Inr fs'
        \<and> fst st' k = Some fs'"
    proof (cases "k = h")
      case True
      with ih nh c have "fst st' k = Some fs'" by auto
      with a b True show ?thesis by auto
    next
      case False
      with k have "k \<in> set hs" by simp
      with ih obtain gs gs' where "fst st1 k = Some gs"
        "register L gs (cell row k) (detect_type L (cell row k)) = Inr gs'" "fst st' k = Some gs'"
        by blast
      with c False show ?thesis by auto
    qed
  qed
qed

lemma scan_rows_seps:
  "scan_rows L hs rows st = Inr st' \<Longrightarrow> snd st' = snd st \<union> (\<Union>row \<in> set rows. cell_seps row hs)"
proof (induction rows arbitrary: st)
  case Nil
  then show ?case by simp
next
  case (Cons row rows)
  from Cons.prems obtain st1 where 1: "scan_row L row hs st = Inr st1"
    and 2: "scan_rows L hs rows st1 = Inr st'"
    by (auto split: sum.splits)
  from scan_row_seps[OF 1] Cons.IH[OF 2] show ?case by auto
qed

lemma scan_rows_column:
  "distinct hs \<Longrightarrow> scan_rows L hs rows st = Inr st' \<Longrightarrow> h \<in> set hs \<Longrightarrow> fst st h = Some fs \<Longrightarrow>
   \<exists>fs'. register_all L fs (column h rows) = Inr fs' \<and> fst st' h = Some fs'"
proof (induction rows arbitrary: st fs)
  case Nil
  then show ?case by (simp add: column_def)
next
  case (Cons row rows)
  from Cons.prems(2) obtain st1 where 1: "scan_row L row hs st = Inr st1"
    and 2: "scan_rows L hs rows st1 = Inr st'"
    by (auto split: sum.splits)
  from scan_row_column[OF Cons.prems(1) 1] Cons.prems(3,4) obtain fs1 where
    r: "register L fs (cell row h) (detect_type L (cell row h)) = Inr fs1"
    and s: "fst st1 h = Some fs1" by fastforce
  from Cons.IH[OF Cons.prems(1) 2 Cons.prems(3) s] obtain fs' where
    "register_all L fs1 (column h rows) = Inr fs'" "fst st' h = Some fs'" by blast
  with r show ?case by (simp add: column_def)
qed

lemma build_constraints_Inr:
  "build_constraints L n stats hs = Inr cs \<Longrightarrow>
   length cs = length hs \<and>
   (\<forall>i < length hs. \<exists>fs. stats (hs ! i) = Some fs \<and> finalize L n (hs ! i) fs = Inr (cs ! i))"
proof (induction hs arbitrary: cs)
  case Nil
  then show ?case by simp
next
  case (Cons h hs)
  from Cons.prems obtain fs c cs' where a: "stats h = Some fs" and b: "finalize L n h fs = Inr c"
    and c: "build_constraints L n stats hs = Inr cs'" and d: "cs = c # cs'"
    by (auto split: option.splits sum.splits)
  from Cons.IH[OF c] a b d show ?case
    by (auto simp: nth_Cons split: nat.splits)
qed

lemma total_rows_fast:
  "total_rows_of (if rows = [] then None else Some (min (FAST_SAMPLE_ROWS + 1) (length rows)))
      (Some FAST_SAMPLE_ROWS) = Inr (length (take FAST_SAMPLE_ROWS rows))"
  by (auto simp: total_rows_of_def FAST_SAMPLE_ROWS_def min_def)

lemma profile_from_text_Inr_parts:
  assumes "profile_from_text L hs rows d m e = Inr p"
  obtains stats seps idx n cs where
    "row_loop L hs (sample_limit_of m) None rows (init_stats hs, {}) = Inr ((stats, seps), idx)"
    "total_rows_of idx (sample_limit_of m) = Inr n"
    "build_constraints L n stats hs = Inr cs"
    "p = \<lparr> row_count = n, pfields = cs, encoding = e, delimiter = d,
           decimal_separator = (if '','' \<in> seps \<and> ''.'' \<notin> seps then '','' else ''.'') \<rparr>"
proof -
  obtain x where x: "row_loop L hs (sample_limit_of m) None rows (init_stats hs, {}) = Inr x"
    using assms unfolding profile_from_text_def Let_def by (cases "row_loop L hs (sample_limit_of m) None rows (init_stats hs, {})") auto
  obtain stats seps idx where xx: "x = ((stats, seps), idx)" by (cases x) auto
  obtain n where n: "total_rows_of idx (sample_limit_of m) = Inr n"
    using assms x xx unfolding profile_from_text_def Let_def
    by (cases "total_rows_of idx (sample_limit_of m)") auto
  obtain cs where cs: "build_constraints L n stats hs = Inr cs"
    using assms x xx n unfolding profile_from_text_def Let_def
    by (cases "build_constraints L n stats hs") auto
  have "p = \<lparr> row_count = n, pfields = cs, encoding = e, delimiter = d,
           decimal_separator = (if '','' \<in> seps \<and> ''.'' \<notin> seps then '','' else ''.'') \<rparr>"
    using assms x xx n cs unfolding profile_from_text_def Let_def by simp
  with x xx n cs that show thesis by blast
qed

lemma row_loop_fast_start:
  "row_loop L hs (Some FAST_SAMPLE_ROWS) None rows st =
     (case scan_rows L hs (take FAST_SAMPLE_ROWS rows) st of
        Inl e \<Rightarrow> Inl e
      | Inr st' \<Rightarrow> Inr (st', if rows = [] then None
                               else Some (min (FAST_SAMPLE_ROWS + 1) (length rows))))"
proof -
  have iv0: "idx_value None = 0" by (simp add: idx_value_def)
  have "FAST_SAMPLE_ROWS \<noteq> 0" "FAST_SAMPLE_ROWS < MAX_ROWS" "idx_value None \<le> FAST_SAMPLE_ROWS"
    by (simp_all add: FAST_SAMPLE_ROWS_def MAX_ROWS_def iv0)
  from row_loop_fast[OF this, of L hs rows st] show ?thesis
    unfolding iv0 diff_zero add_0 .
qed

lemma row_loop_strict_start:
  "row_loop L hs None None rows st =
     (if length rows \<le> MAX_ROWS
      then (case scan_rows L hs rows st of
              Inl e \<Rightarrow> Inl e
            | Inr st' \<Rightarrow> Inr (st', if rows = [] then None else Some (length rows)))
      else (case scan_rows L hs (take MAX_ROWS rows) st of
              Inl e \<Rightarrow> Inl e
            | Inr st' \<Rightarrow> Inl row_limit_error))"
proof -
  have iv0: "idx_value None = 0" by (simp add: idx_value_def)
  have "idx_value None \<le> MAX_ROWS" by (simp add: iv0)
  from row_loop_strict[OF this, of L hs rows st] show ?thesis
    unfolding iv0 diff_zero add_0 .
qed

lemma profile_Inr:
  assumes "profile_from_text L hs rows d m e = Inr p"
  shows "\<exists>st'. scan_rows L hs (sampled_rows m rows) (init_stats hs, {}) = Inr st'
       \<and> row_count p = length (sampled_rows m rows)
       \<and> build_constraints L (length (sampled_rows m rows)) (fst st') hs = Inr (pfields p)
       \<and> decimal_separator p = (if '','' \<in> snd st' \<and> ''.'' \<notin> snd st' then '','' else ''.'')
       \<and> encoding p = e \<and> delimiter p = d
       \<and> (m = STRICT \<longrightarrow> rows \<noteq> [] \<and> length rows \<le> MAX_ROWS)"
proof -
  from assms obtain stats seps idx n cs where
    rl: "row_loop L hs (sample_limit_of m) None rows (init_stats hs, {}) = Inr ((stats, seps), idx)"
    and tr: "total_rows_of idx (sample_limit_of m) = Inr n"
    and bc: "build_constraints L n stats hs = Inr cs"
    and p: "p = \<lparr> row_count = n, pfields = cs, encoding = e, delimiter = d,
           decimal_separator = (if '','' \<in> seps \<and> ''.'' \<notin> seps then '','' else ''.'') \<rparr>"
    by (rule profile_from_text_Inr_parts)
  show ?thesis
  proof (cases m)
    case FAST
    then have sl: "sample_limit_of m = Some FAST_SAMPLE_ROWS" by (simp add: sample_limit_of_def)
    from rl have sc: "scan_rows L hs (take FAST_SAMPLE_ROWS rows) (init_stats hs, {}) = Inr (stats, seps)"
      and idx: "idx = (if rows = [] then None else Some (min (FAST_SAMPLE_ROWS + 1) (length rows)))"
      unfolding sl row_loop_fast_start by (auto split: sum.splits)
    from tr have n: "n = length (take FAST_SAMPLE_ROWS rows)"
      unfolding sl idx total_rows_fast by simp
    from sc n bc p FAST sl show ?thesis
      by (simp add: sampled_rows_def)
  next
    case STRICT
    then have sl: "sample_limit_of m = None" by (simp add: sample_limit_of_def)
    from rl have le: "length rows \<le> MAX_ROWS"
      unfolding sl row_loop_strict_start by (auto split: sum.splits if_splits)
    with rl have sc: "scan_rows L hs rows (init_stats hs, {}) = Inr (stats, seps)"
      and idx: "idx = (if rows = [] then None else Some (length rows))"
      unfolding sl row_loop_strict_start by (auto split: sum.splits)
    from tr have ne: "rows \<noteq> []" and n: "n = length rows"
      unfolding sl idx by (auto simp: total_rows_of_def split: if_splits)
    from sc n bc p STRICT sl le ne show ?thesis
      by (simp add: sampled_rows_def)
  qed
qed

section \<open>Facts about register and the final type\<close>

lemma detect_type_EMPTY_iff: "detect_type L v = EMPTY \<longleftrightarrow> v = []"
  by (auto simp: detect_type_def Let_def split: option.splits)

lemma register_length_fields [simp]:
  "type_counts (register_length s v) = type_counts s"
  "nulls (register_length s v) = nulls s"
  "allowed_set (register_length s v) = allowed_set s"
  "min_val (register_length s v) = min_val s"
  "max_val (register_length s v) = max_val s"
  "min_date (register_length s v) = min_date s"
  "max_date (register_length s v) = max_date s"
  by (simp_all add: register_length_def)

lemma register_numeric_fields [simp]:
  "type_counts (register_numeric L s v t) = type_counts s"
  "nulls (register_numeric L s v t) = nulls s"
  "allowed_set (register_numeric L s v t) = allowed_set s"
  "max_len (register_numeric L s v t) = max_len s"
  "min_len (register_numeric L s v t) = min_len s"
  "min_date (register_numeric L s v t) = min_date s"
  "max_date (register_numeric L s v t) = max_date s"
  by (simp_all add: register_numeric_def split: option.splits)

lemma register_allowed_fields [simp]:
  "type_counts (register_allowed s v) = type_counts s"
  "nulls (register_allowed s v) = nulls s"
  "max_len (register_allowed s v) = max_len s"
  "min_len (register_allowed s v) = min_len s"
  "min_val (register_allowed s v) = min_val s"
  "max_val (register_allowed s v) = max_val s"
  "min_date (register_allowed s v) = min_date s"
  "max_date (register_allowed s v) = max_date s"
  by (simp_all add: register_allowed_def)

lemma register_date_cases:
  assumes "register_date L s v t = Inr s'"
  shows "s' = s \<or> (\<exists>lo hi. s' = s\<lparr> min_date := Some lo, max_date := Some hi \<rparr>)"
proof (cases "t \<in> {DATE, DATETIME}")
  case False
  with assms show ?thesis by (simp add: register_date_def)
next
  case True
  show ?thesis
  proof (cases "parse_datetime L v")
    case None
    with assms True show ?thesis by (simp add: register_date_def)
  next
    case (Some dt)
    with assms True show ?thesis
      unfolding register_date_def by (simp split: sum.splits) blast
  qed
qed

lemma register_date_fields:
  assumes "register_date L s v t = Inr s'"
  shows "type_counts s' = type_counts s" "nulls s' = nulls s" "allowed_set s' = allowed_set s"
    "max_len s' = max_len s" "min_len s' = min_len s" "min_val s' = min_val s"
    "max_val s' = max_val s"
  using register_date_cases[OF assms] by auto

lemma register_empty:
  "register L s [] t = Inr (s\<lparr> type_counts := bump t (type_counts s), nulls := nulls s + 1 \<rparr>)"
  by (simp add: register_def Let_def)

lemma register_nonempty:
  assumes "v \<noteq> []" "register L s v t = Inr s'"
  obtains s2 where
    "register_date L (register_numeric L (register_length (s\<lparr> type_counts := bump t (type_counts s) \<rparr>) v) v t) v t = Inr s2"
    "s' = register_allowed s2 v"
  using assms unfolding register_def Let_def by (auto split: sum.splits)

lemma register_type_counts:
  assumes "register L s v t = Inr s'"
  shows "type_counts s' = bump t (type_counts s)"
proof (cases "v = []")
  case True
  with assms have "s' = s\<lparr> type_counts := bump t (type_counts s), nulls := nulls s + 1 \<rparr>"
    by (simp add: register_empty)
  then show ?thesis by simp
next
  case False
  from register_nonempty[OF False assms] obtain s2 where
    d: "register_date L (register_numeric L (register_length (s\<lparr> type_counts := bump t (type_counts s) \<rparr>) v) v t) v t = Inr s2"
    and s': "s' = register_allowed s2 v" by blast
  from register_date_fields(1)[OF d] s' show ?thesis by simp
qed

lemma bump_map:
  "bump t (map (\<lambda>k. (k, n k)) ks) = map (\<lambda>k. (k, if k = t then n k + 1 else n k)) ks"
  by (simp add: bump_def)

lemma register_all_type_counts:
  "register_all L s vs = Inr s' \<Longrightarrow> type_counts s = map (\<lambda>k. (k, n k)) ks \<Longrightarrow>
   type_counts s' = map (\<lambda>k. (k, n k + type_count L k vs)) ks"
proof (induction vs arbitrary: s n)
  case Nil
  then show ?case by (simp add: type_count_def)
next
  case (Cons v vs)
  from Cons.prems(1) obtain s1 where 1: "register L s v (detect_type L v) = Inr s1"
    and 2: "register_all L s1 vs = Inr s'" by (auto split: sum.splits)
  from register_type_counts[OF 1] Cons.prems(2)
  have "type_counts s1 = map (\<lambda>k. (k, if k = detect_type L v then n k + 1 else n k)) ks"
    by (simp add: bump_map)
  from Cons.IH[OF 2 this] show ?case
    by (auto simp: type_count_def)
qed

lemma hd_filter_first:
  "filter P xs \<noteq> [] \<Longrightarrow>
   \<exists>i < length xs. hd (filter P xs) = xs ! i \<and> P (xs ! i) \<and> (\<forall>j < i. \<not> P (xs ! j))"
proof (induction xs)
  case Nil
  then show ?case by simp
next
  case (Cons x xs)
  show ?case
  proof (cases "P x")
    case True
    then show ?thesis by (intro exI[of _ 0]) simp
  next
    case False
    with Cons obtain i where i: "i < length xs" "hd (filter P xs) = xs ! i" "P (xs ! i)"
      "\<forall>j < i. \<not> P (xs ! j)" by auto
    show ?thesis
    proof (intro exI[of _ "Suc i"] conjI allI impI)
      fix j assume "j < Suc i"
      with i(4) False show "\<not> P ((x # xs) ! j)" by (cases j) auto
    qed (use i False in auto)
  qed
qed

lemma all_types_nth: "all_types ! decl_index t = t" "decl_index t < length all_types"
  by (cases t; simp add: all_types_def)+

lemma all_types_index: "i < length all_types \<Longrightarrow> decl_index (all_types ! i) = i"
proof -
  assume "i < length all_types"
  then have "i \<in> {0, 1, 2, 3, 4, 5, 6, 7}" by (auto simp: all_types_def)
  then show ?thesis by (auto simp: all_types_def)
qed

lemma hd_sort_key:
  fixes f :: "'a \<Rightarrow> 'k::linorder"
  assumes "xs \<noteq> []"
  shows "hd (sort_key f xs) \<in> set xs"
    and "\<forall>z \<in> set xs. f (hd (sort_key f xs)) \<le> f z"
    and "hd (filter (\<lambda>z. f z = f (hd (sort_key f xs))) xs) = hd (sort_key f xs)"
proof -
  let ?ys = "sort_key f xs"
  have "length ?ys = length xs" by simp
  with assms have "?ys \<noteq> []" by (cases ?ys) auto
  then obtain y ys where ys: "?ys = y # ys" by (cases ?ys) auto
  have "set ?ys = set xs" by simp
  then have "y \<in> set xs" unfolding ys by auto
  then show "hd ?ys \<in> set xs" unfolding ys by simp
  have "sorted (map f ?ys)" by (rule sorted_sort_key)
  then have "\<forall>z \<in> set (y # ys). f y \<le> f z" unfolding ys by auto
  moreover have "set (y # ys) = set xs" using \<open>set ?ys = set xs\<close> unfolding ys .
  ultimately have "\<forall>z \<in> set xs. f y \<le> f z" by blast
  then show "\<forall>z \<in> set xs. f (hd ?ys) \<le> f z" unfolding ys by simp
  have "filter (\<lambda>z. f z = f y) ?ys = filter (\<lambda>z. f z = f y) xs"
    by (rule sort_key_stable)
  then have "filter (\<lambda>z. f z = f y) xs = y # filter (\<lambda>z. f z = f y) ys"
    unfolding ys by simp
  then show "hd (filter (\<lambda>z. f z = f (hd ?ys)) xs) = hd ?ys"
    unfolding ys by simp
qed

lemma filter_counts:
  "filter (\<lambda>(t, c). c > 0 \<and> t \<noteq> EMPTY) (map (\<lambda>k. (k, n k)) ks) =
   map (\<lambda>k. (k, n k)) (filter (\<lambda>k. n k > 0 \<and> k \<noteq> EMPTY) ks)"
  by (induction ks) auto

lemma filter_same_count:
  "filter (\<lambda>z. (case z of (t, c) \<Rightarrow> - int c) = - int m) (map (\<lambda>k. (k, n k)) ks) =
   map (\<lambda>k. (k, n k)) (filter (\<lambda>k. n k = m) ks)"
  by (induction ks) auto

lemma pick_final_type_eq:
  fixes n :: "FieldType \<Rightarrow> nat"
  defines "cands \<equiv> (\<lambda>ks. filter (\<lambda>k. n k > 0 \<and> k \<noteq> EMPTY) ks)"
  shows "cands ks = [] \<Longrightarrow> pick_final_type (map (\<lambda>k. (k, n k)) ks) = EMPTY"
    and "cands ks \<noteq> [] \<Longrightarrow>
         pick_final_type (map (\<lambda>k. (k, n k)) ks) \<in> set (cands ks) \<and>
         (\<forall>k \<in> set (cands ks). n k \<le> n (pick_final_type (map (\<lambda>k. (k, n k)) ks))) \<and>
         hd (filter (\<lambda>k. n k = n (pick_final_type (map (\<lambda>k. (k, n k)) ks))) (cands ks))
           = pick_final_type (map (\<lambda>k. (k, n k)) ks)"
proof -
  let ?g = "\<lambda>k. (k, n k)"
  let ?f = "\<lambda>(t :: FieldType, c :: nat). - int c"
  have nz: "filter (\<lambda>(t, c). c > 0 \<and> t \<noteq> EMPTY) (map ?g ks) = map ?g (cands ks)"
    unfolding cands_def by (rule filter_counts)
  show "cands ks = [] \<Longrightarrow> pick_final_type (map ?g ks) = EMPTY"
    unfolding pick_final_type_def nz Let_def by simp
  assume ne: "cands ks \<noteq> []"
  let ?xs = "map ?g (cands ks)"
  let ?y = "hd (sort_key ?f ?xs)"
  have xne: "?xs \<noteq> []" using ne by simp
  have pick: "pick_final_type (map ?g ks) = fst ?y"
    unfolding pick_final_type_def nz Let_def using xne by simp
  from hd_sort_key(1)[OF xne, of ?f] obtain w where w: "?y = (w, n w)" "w \<in> set (cands ks)"
    by auto
  have pw: "pick_final_type (map ?g ks) = w" unfolding pick w by simp
  from hd_sort_key(2)[OF xne, of ?f] have mx: "\<forall>k \<in> set (cands ks). n k \<le> n w"
    unfolding w by auto
  from hd_sort_key(3)[OF xne, of ?f]
  have "hd (filter (\<lambda>z. ?f z = - int (n w)) ?xs) = (w, n w)"
    unfolding w by simp
  then have "hd (map ?g (filter (\<lambda>k. n k = n w) (cands ks))) = (w, n w)"
    unfolding filter_same_count .
  moreover have "filter (\<lambda>k. n k = n w) (cands ks) \<noteq> []"
    using w(2) by (auto simp: filter_empty_conv)
  ultimately have "hd (filter (\<lambda>k. n k = n w) (cands ks)) = w"
    by (simp add: hd_map)
  with w(2) mx show "pick_final_type (map ?g ks) \<in> set (cands ks) \<and>
         (\<forall>k \<in> set (cands ks). n k \<le> n (pick_final_type (map ?g ks))) \<and>
         hd (filter (\<lambda>k. n k = n (pick_final_type (map ?g ks))) (cands ks))
           = pick_final_type (map ?g ks)"
    unfolding pw by simp
qed

lemma init_stats_Some: "h \<in> set hs \<Longrightarrow> init_stats hs h = Some (new_FieldStats h)"
  by (simp add: init_stats_def)

lemma profile_column:
  assumes "profile_from_text L hs rows d m e = Inr p" "distinct hs" "i < length hs"
  shows "length (pfields p) = length hs"
    and "\<exists>fs. register_all L (new_FieldStats (hs ! i)) (column (hs ! i) (sampled_rows m rows)) = Inr fs
            \<and> finalize L (length (sampled_rows m rows)) (hs ! i) fs = Inr (pfields p ! i)"
proof -
  from profile_Inr[OF assms(1)] obtain st' where
    sc: "scan_rows L hs (sampled_rows m rows) (init_stats hs, {}) = Inr st'"
    and bc: "build_constraints L (length (sampled_rows m rows)) (fst st') hs = Inr (pfields p)"
    by blast
  from build_constraints_Inr[OF bc] show "length (pfields p) = length hs" by simp
  from build_constraints_Inr[OF bc] assms(3) obtain fs where
    fs: "fst st' (hs ! i) = Some fs"
    and fin: "finalize L (length (sampled_rows m rows)) (hs ! i) fs = Inr (pfields p ! i)"
    by blast
  have mem: "hs ! i \<in> set hs" using assms(3) by simp
  have "fst (init_stats hs, {}) (hs ! i) = Some (new_FieldStats (hs ! i))"
    using mem by (simp add: init_stats_Some)
  from scan_rows_column[OF assms(2) sc mem this] fs
  have "register_all L (new_FieldStats (hs ! i)) (column (hs ! i) (sampled_rows m rows)) = Inr fs"
    by auto
  with fin show "\<exists>fs. register_all L (new_FieldStats (hs ! i)) (column (hs ! i) (sampled_rows m rows)) = Inr fs
            \<and> finalize L (length (sampled_rows m rows)) (hs ! i) fs = Inr (pfields p ! i)"
    by blast
qed

lemma validate_Inr: "validate_FieldConstraint c = Inr c' \<Longrightarrow> c' = c"
  by (auto simp: validate_FieldConstraint_def split: if_splits)

lemma finalize_Inr:
  assumes "finalize L n h fs = Inr c"
  shows "c = \<lparr> name = h,
         ftype = pick_final_type (type_counts fs),
         nullable = (nulls fs > 0),
         min_length = map_option int (min_len fs),
         max_length = Some (int (max_len fs)),
         min_value = min_val fs,
         max_value = max_val fs,
         allowed_values =
           (if allowed_set fs \<noteq> {} \<and> card (allowed_set fs) \<le> 50
            then Some (sorted_list_of_set (allowed_set fs)) else None),
         null_fraction = (if n \<noteq> 0 then of_nat (nulls fs) / of_nat n else 0),
         date_min = map_option (isoformat L) (min_date fs),
         date_max = map_option (isoformat L) (max_date fs) \<rparr>"
  by (rule validate_Inr[OF assms[unfolded finalize_def]])

lemma all_types_complete: "t \<in> set all_types"
  by (cases t) (simp_all add: all_types_def)

lemma new_FieldStats_type_counts:
  "type_counts (new_FieldStats h) = map (\<lambda>k. (k, 0)) all_types"
  by (simp add: new_FieldStats_def)

lemma column_type_counts:
  assumes "register_all L (new_FieldStats h) vs = Inr fs"
  shows "type_counts fs = map (\<lambda>k. (k, type_count L k vs)) all_types"
  using register_all_type_counts[OF assms, of "\<lambda>k. 0" all_types]
  by (simp add: new_FieldStats_type_counts)

lemma first_declared:
  assumes "filter Q all_types \<noteq> []" "Q t"
  shows "decl_index (hd (filter Q all_types)) \<le> decl_index t"
proof -
  from hd_filter_first[OF assms(1)] obtain i where i: "i < length all_types"
    "hd (filter Q all_types) = all_types ! i" "\<forall>j < i. \<not> Q (all_types ! j)" by blast
  have di: "decl_index (hd (filter Q all_types)) = i"
    unfolding i(2) by (rule all_types_index[OF i(1)])
  show ?thesis
  proof (rule ccontr)
    assume "\<not> decl_index (hd (filter Q all_types)) \<le> decl_index t"
    then have "decl_index t < i" unfolding di by simp
    with i(3) have "\<not> Q (all_types ! decl_index t)" by blast
    with assms(2) show False by (simp add: all_types_nth)
  qed
qed

lemma final_type_of_counts:
  fixes n :: "FieldType \<Rightarrow> nat"
  defines "w \<equiv> pick_final_type (map (\<lambda>k. (k, n k)) all_types)"
  shows "(\<forall>t. t \<noteq> EMPTY \<longrightarrow> n t = 0) \<Longrightarrow> w = EMPTY"
    and "t0 \<noteq> EMPTY \<Longrightarrow> n t0 > 0 \<Longrightarrow>
         w \<noteq> EMPTY \<and> n w > 0 \<and> (\<forall>t. t \<noteq> EMPTY \<longrightarrow> n t \<le> n w) \<and>
         (\<forall>t. t \<noteq> EMPTY \<and> n t = n w \<longrightarrow> decl_index w \<le> decl_index t)"
proof -
  let ?cands = "filter (\<lambda>k. n k > 0 \<and> k \<noteq> EMPTY) all_types"
  {
    assume "\<forall>t. t \<noteq> EMPTY \<longrightarrow> n t = 0"
    then have "?cands = []" by (auto simp: filter_empty_conv)
    from pick_final_type_eq(1)[OF this] show "w = EMPTY" unfolding w_def .
  }
  assume t0: "t0 \<noteq> EMPTY" "n t0 > 0"
  then have t0c: "t0 \<in> set ?cands" by (simp add: all_types_complete)
  have ne: "?cands \<noteq> []"
  proof
    assume "?cands = []"
    with t0c show False by (simp only: list.set empty_iff)
  qed
  from pick_final_type_eq(2)[OF ne] have
    a: "w \<in> set ?cands" and b: "\<forall>k \<in> set ?cands. n k \<le> n w"
    and c: "hd (filter (\<lambda>k. n k = n w) ?cands) = w"
    unfolding w_def by blast+
  from a have w: "w \<noteq> EMPTY" "n w > 0" by auto
  have le: "\<forall>t. t \<noteq> EMPTY \<longrightarrow> n t \<le> n w"
  proof (intro allI impI)
    fix t assume "t \<noteq> EMPTY"
    show "n t \<le> n w"
    proof (cases "n t = 0")
      case True
      then show ?thesis by simp
    next
      case False
      with \<open>t \<noteq> EMPTY\<close> have "t \<in> set ?cands" by (simp add: all_types_complete)
      with b show ?thesis by blast
    qed
  qed
  let ?Q = "\<lambda>k. n k = n w \<and> n k > 0 \<and> k \<noteq> EMPTY"
  have ff: "filter (\<lambda>k. n k = n w) ?cands = filter ?Q all_types"
    by (simp add: conj_commute conj_left_commute)
  have "filter ?Q all_types \<noteq> []"
    using w by (auto simp: filter_empty_conv all_types_complete)
  then have fd: "\<And>t. ?Q t \<Longrightarrow> decl_index (hd (filter ?Q all_types)) \<le> decl_index t"
    by (rule first_declared)
  have tie: "\<forall>t. t \<noteq> EMPTY \<and> n t = n w \<longrightarrow> decl_index w \<le> decl_index t"
  proof (intro allI impI)
    fix t assume t: "t \<noteq> EMPTY \<and> n t = n w"
    with w have "?Q t" by simp
    from fd[OF this] show "decl_index w \<le> decl_index t"
      using c unfolding ff by simp
  qed
  from w le tie show "w \<noteq> EMPTY \<and> n w > 0 \<and> (\<forall>t. t \<noteq> EMPTY \<longrightarrow> n t \<le> n w) \<and>
         (\<forall>t. t \<noteq> EMPTY \<and> n t = n w \<longrightarrow> decl_index w \<le> decl_index t)"
    by blast
qed

section \<open>Which errors profiling can raise\<close>

lemma datetime_lt_err: "datetime_lt a b = Inl e \<Longrightarrow> e = TypeError"
  by (auto simp: datetime_lt_def split: option.splits)

lemma datetime_min_err: "datetime_min a b = Inl e \<Longrightarrow> e = TypeError"
  by (auto simp: datetime_min_def split: sum.splits dest: datetime_lt_err)

lemma datetime_max_err: "datetime_max a b = Inl e \<Longrightarrow> e = TypeError"
  by (auto simp: datetime_max_def split: sum.splits dest: datetime_lt_err)

lemma register_date_err:
  assumes "register_date L s v t = Inl e"
  shows "e = TypeError \<and> t \<in> {DATE, DATETIME}"
proof (cases "t \<in> {DATE, DATETIME}")
  case False
  with assms show ?thesis by (simp add: register_date_def)
next
  case True
  show ?thesis
  proof (cases "parse_datetime L v")
    case None
    with assms True show ?thesis by (simp add: register_date_def)
  next
    case (Some dt)
    with assms True have "e = TypeError"
      unfolding register_date_def
      by (auto split: sum.splits option.splits dest: datetime_min_err datetime_max_err)
    with True show ?thesis by simp
  qed
qed

lemma register_err:
  assumes "register L s v t = Inl e"
  shows "e = TypeError \<and> t \<in> {DATE, DATETIME}"
proof -
  from assms have "v \<noteq> []" by (auto simp: register_empty)
  with assms obtain s0 where "register_date L s0 v t = Inl e"
    unfolding register_def Let_def by (auto split: sum.splits)
  then show ?thesis by (rule register_date_err)
qed

lemma scan_cell_err:
  assumes "fst st h \<noteq> None" "scan_cell L row st h = Inl e"
  shows "e = TypeError \<and> detect_type L (cell row h) \<in> {DATE, DATETIME}"
proof -
  from assms(1) obtain fs where fs: "fst st h = Some fs" by auto
  with assms(2) have "register L fs (cell row h) (detect_type L (cell row h)) = Inl e"
    unfolding scan_cell_def Let_def by (auto split: sum.splits)
  then show ?thesis by (rule register_err)
qed

lemma scan_cell_cover:
  assumes "scan_cell L row st h = Inr st'" "stats_cover hs st"
  shows "stats_cover hs st'"
proof -
  from scan_cell_Inr[OF assms(1)] obtain fs' where "fst st' = (fst st)(h \<mapsto> fs')" by blast
  with assms(2) show ?thesis by (auto simp: stats_cover_def)
qed

lemma scan_row_cover:
  "scan_row L row ks st = Inr st' \<Longrightarrow> stats_cover hs st \<Longrightarrow> stats_cover hs st'"
proof (induction ks arbitrary: st)
  case Nil
  then show ?case by simp
next
  case (Cons k ks)
  from Cons.prems(1) obtain st1 where 1: "scan_cell L row st k = Inr st1"
    and 2: "scan_row L row ks st1 = Inr st'" by (auto split: sum.splits)
  from Cons.IH[OF 2 scan_cell_cover[OF 1 Cons.prems(2)]] show ?case .
qed

lemma scan_row_err:
  "scan_row L row ks st = Inl e \<Longrightarrow> stats_cover hs st \<Longrightarrow> set ks \<subseteq> set hs \<Longrightarrow>
   e = TypeError \<and> date_cell L ks row"
proof (induction ks arbitrary: st)
  case Nil
  then show ?case by simp
next
  case (Cons k ks)
  show ?case
  proof (cases "scan_cell L row st k")
    case (Inl e')
    with Cons.prems(1) have e: "e' = e" by simp
    from Cons.prems(2,3) have "fst st k \<noteq> None" by (auto simp: stats_cover_def)
    from scan_cell_err[OF this Inl] e show ?thesis by (auto simp: date_cell_def)
  next
    case (Inr st1)
    with Cons.prems(1) have 2: "scan_row L row ks st1 = Inl e" by simp
    from Cons.prems(3) have sub: "set ks \<subseteq> set hs" by simp
    from Cons.IH[OF 2 scan_cell_cover[OF Inr Cons.prems(2)] sub] show ?thesis
      by (auto simp: date_cell_def)
  qed
qed

lemma scan_rows_cover:
  "scan_rows L hs rows st = Inr st' \<Longrightarrow> stats_cover hs st \<Longrightarrow> stats_cover hs st'"
proof (induction rows arbitrary: st)
  case Nil
  then show ?case by simp
next
  case (Cons row rows)
  from Cons.prems(1) obtain st1 where 1: "scan_row L row hs st = Inr st1"
    and 2: "scan_rows L hs rows st1 = Inr st'" by (auto split: sum.splits)
  from Cons.IH[OF 2 scan_row_cover[OF 1 Cons.prems(2)]] show ?case .
qed

lemma scan_rows_err:
  "scan_rows L hs rows st = Inl e \<Longrightarrow> stats_cover hs st \<Longrightarrow>
   e = TypeError \<and> (\<exists>row \<in> set rows. date_cell L hs row)"
proof (induction rows arbitrary: st)
  case Nil
  then show ?case by simp
next
  case (Cons row rows)
  show ?case
  proof (cases "scan_row L row hs st")
    case (Inl e')
    with Cons.prems(1) have "e' = e" by simp
    with scan_row_err[OF Inl Cons.prems(2) subset_refl] show ?thesis by simp
  next
    case (Inr st1)
    with Cons.prems(1) have 2: "scan_rows L hs rows st1 = Inl e" by simp
    from Cons.IH[OF 2 scan_row_cover[OF Inr Cons.prems(2)]] show ?thesis by auto
  qed
qed

lemma init_stats_cover: "stats_cover hs (init_stats hs, seps)"
  by (simp add: stats_cover_def init_stats_def)

section \<open>Profiling in each parse mode\<close>

lemma profile_fast_eq:
  "profile_from_text L hs rows d FAST e =
     (case scan_rows L hs (take FAST_SAMPLE_ROWS rows) (init_stats hs, {}) of
        Inl x \<Rightarrow> Inl x
      | Inr st \<Rightarrow>
         (case build_constraints L (length (take FAST_SAMPLE_ROWS rows)) (fst st) hs of
            Inl x \<Rightarrow> Inl x
          | Inr cs \<Rightarrow> Inr (profile_result d e (length (take FAST_SAMPLE_ROWS rows)) (snd st) cs)))"
proof -
  have sl: "sample_limit_of FAST = Some FAST_SAMPLE_ROWS" by (simp add: sample_limit_of_def)
  show ?thesis
  proof (cases "scan_rows L hs (take FAST_SAMPLE_ROWS rows) (init_stats hs, {})")
    case (Inl x)
    then show ?thesis
      unfolding profile_from_text_def Let_def sl row_loop_fast_start by simp
  next
    case (Inr st)
    obtain stats seps where st: "st = (stats, seps)" by (cases st)
    show ?thesis
      unfolding profile_from_text_def Let_def sl row_loop_fast_start Inr st
      by (simp add: total_rows_fast profile_result_def split: sum.splits)
  qed
qed

lemma profile_strict_eq:
  "profile_from_text L hs rows d STRICT e =
     (if MAX_ROWS < length rows
      then (case scan_rows L hs (take MAX_ROWS rows) (init_stats hs, {}) of
              Inl x \<Rightarrow> Inl x
            | Inr st \<Rightarrow> Inl row_limit_error)
      else (case scan_rows L hs rows (init_stats hs, {}) of
              Inl x \<Rightarrow> Inl x
            | Inr st \<Rightarrow>
               if rows = [] then Inl UnboundLocalError
               else (case build_constraints L (length rows) (fst st) hs of
                       Inl x \<Rightarrow> Inl x
                     | Inr cs \<Rightarrow> Inr (profile_result d e (length rows) (snd st) cs))))"
proof -
  have sl: "sample_limit_of STRICT = None" by (simp add: sample_limit_of_def)
  show ?thesis
  proof (cases "MAX_ROWS < length rows")
    case True
    then show ?thesis
      unfolding profile_from_text_def Let_def sl row_loop_strict_start
      by (simp split: sum.splits)
  next
    case False
    show ?thesis
    proof (cases "scan_rows L hs rows (init_stats hs, {})")
      case (Inl x)
      with False show ?thesis
        unfolding profile_from_text_def Let_def sl row_loop_strict_start by simp
    next
      case (Inr st)
      obtain stats seps where st: "st = (stats, seps)" by (cases st)
      from False show ?thesis
        unfolding profile_from_text_def Let_def sl row_loop_strict_start Inr st
        by (simp add: total_rows_of_def profile_result_def split: sum.splits)
    qed
  qed
qed

lemma build_constraints_err:
  "build_constraints L n stats ks = Inl e \<Longrightarrow> e = KeyError \<or> e = ValidationError"
proof (induction ks)
  case Nil
  then show ?case by simp
next
  case (Cons k ks)
  then show ?case
    by (auto simp: finalize_def validate_FieldConstraint_def split: option.splits sum.splits if_splits)
qed

lemma row_limit_error_distinct:
  "row_limit_error \<noteq> TypeError" "row_limit_error \<noteq> KeyError"
  "row_limit_error \<noteq> ValidationError" "row_limit_error \<noteq> UnboundLocalError"
  by (simp_all add: row_limit_error_def)

lemma profile_fast_no_row_limit:
  "profile_from_text L hs rows d FAST e \<noteq> Inl row_limit_error"
proof
  assume a: "profile_from_text L hs rows d FAST e = Inl row_limit_error"
  show False
  proof (cases "scan_rows L hs (take FAST_SAMPLE_ROWS rows) (init_stats hs, {})")
    case (Inl x)
    from scan_rows_err[OF Inl init_stats_cover] have "x = TypeError" by simp
    with a Inl show False
      unfolding profile_fast_eq by (simp add: row_limit_error_def)
  next
    case (Inr st)
    with a have "build_constraints L (length (take FAST_SAMPLE_ROWS rows)) (fst st) hs = Inl row_limit_error"
      unfolding profile_fast_eq by (simp split: sum.splits)
    from build_constraints_err[OF this] show False by (simp add: row_limit_error_def)
  qed
qed

lemma profile_strict_over_cap:
  assumes "MAX_ROWS < length rows"
  shows "profile_from_text L hs rows d STRICT e = Inl row_limit_error
       \<or> profile_from_text L hs rows d STRICT e = Inl TypeError"
    and "\<not> (\<exists>row \<in> set (take MAX_ROWS rows). date_cell L hs row) \<Longrightarrow>
         profile_from_text L hs rows d STRICT e = Inl row_limit_error"
proof -
  show "profile_from_text L hs rows d STRICT e = Inl row_limit_error
       \<or> profile_from_text L hs rows d STRICT e = Inl TypeError"
  proof (cases "scan_rows L hs (take MAX_ROWS rows) (init_stats hs, {})")
    case (Inl x)
    from scan_rows_err[OF Inl init_stats_cover] have "x = TypeError" by simp
    with Inl assms show ?thesis unfolding profile_strict_eq by simp
  next
    case (Inr st)
    with assms show ?thesis unfolding profile_strict_eq by simp
  qed
  assume nd: "\<not> (\<exists>row \<in> set (take MAX_ROWS rows). date_cell L hs row)"
  show "profile_from_text L hs rows d STRICT e = Inl row_limit_error"
  proof (cases "scan_rows L hs (take MAX_ROWS rows) (init_stats hs, {})")
    case (Inl x)
    from scan_rows_err[OF Inl init_stats_cover] nd show ?thesis by simp
  next
    case (Inr st)
    with assms show ?thesis unfolding profile_strict_eq by simp
  qed
qed

lemma register_nulls:
  assumes "register L s v t = Inr s'"
  shows "nulls s' = nulls s + (if v = [] then 1 else 0)"
proof (cases "v = []")
  case True
  with assms have "s' = s\<lparr> type_counts := bump t (type_counts s), nulls := nulls s + 1 \<rparr>"
    by (simp add: register_empty)
  with True show ?thesis by simp
next
  case False
  from register_nonempty[OF False assms] obtain s2 where
    d: "register_date L (register_numeric L (register_length (s\<lparr> type_counts := bump t (type_counts s) \<rparr>) v) v t) v t = Inr s2"
    and s': "s' = register_allowed s2 v" by blast
  from register_date_fields(2)[OF d] s' False show ?thesis by simp
qed

lemma register_all_nulls:
  "register_all L s vs = Inr s' \<Longrightarrow> nulls s' = nulls s + length (filter (\<lambda>v. v = []) vs)"
proof (induction vs arbitrary: s)
  case Nil
  then show ?case by simp
next
  case (Cons v vs)
  from Cons.prems obtain s1 where 1: "register L s v (detect_type L v) = Inr s1"
    and 2: "register_all L s1 vs = Inr s'" by (auto split: sum.splits)
  from register_nulls[OF 1] Cons.IH[OF 2] show ?case by simp
qed

lemma finalize_ok:
  assumes "nulls fs \<le> n"
  shows "\<exists>c. finalize L n h fs = Inr c"
proof -
  have "(of_nat (nulls fs) :: rat) \<le> of_nat n" using assms by simp
  then have "n \<noteq> 0 \<Longrightarrow> (of_nat (nulls fs) :: rat) / of_nat n \<le> 1"
    by (simp add: divide_le_eq_1)
  then show ?thesis
    unfolding finalize_def validate_FieldConstraint_def by simp
qed

lemma build_constraints_ok:
  "(\<forall>k \<in> set ks. \<exists>fs. stats k = Some fs \<and> nulls fs \<le> n) \<Longrightarrow>
   \<exists>cs. build_constraints L n stats ks = Inr cs"
proof (induction ks)
  case Nil
  then show ?case by simp
next
  case (Cons k ks)
  then obtain fs cs where fs: "stats k = Some fs" "nulls fs \<le> n"
    and cs: "build_constraints L n stats ks = Inr cs" by auto
  from finalize_ok[OF fs(2), of L k] obtain c where "finalize L n k fs = Inr c" by blast
  with fs cs show ?case by simp
qed

lemma scan_then_build_ok:
  assumes "distinct hs" "scan_rows L hs R (init_stats hs, {}) = Inr st"
  shows "\<exists>cs. build_constraints L (length R) (fst st) hs = Inr cs"
proof (rule build_constraints_ok, intro ballI)
  fix k assume k: "k \<in> set hs"
  have "fst (init_stats hs, {}) k = Some (new_FieldStats k)"
    using k by (simp add: init_stats_Some)
  from scan_rows_column[OF assms(1,2) k this] obtain fs where
    ra: "register_all L (new_FieldStats k) (column k R) = Inr fs" and fs: "fst st k = Some fs"
    by blast
  from register_all_nulls[OF ra] have "nulls fs = length (filter (\<lambda>v. v = []) (column k R))"
    by (simp add: new_FieldStats_def)
  also have "\<dots> \<le> length (column k R)" by (rule length_filter_le)
  finally have "nulls fs \<le> length R" by (simp add: column_def)
  with fs show "\<exists>fs. fst st k = Some fs \<and> nulls fs \<le> length R" by blast
qed

lemma scan_rows_ok:
  assumes "\<not> (\<exists>row \<in> set R. date_cell L hs row)"
  shows "\<exists>st. scan_rows L hs R (init_stats hs, {}) = Inr st"
proof (cases "scan_rows L hs R (init_stats hs, {})")
  case (Inl x)
  from scan_rows_err[OF Inl init_stats_cover] assms show ?thesis by simp
next
  case (Inr st)
  then show ?thesis by blast
qed

lemma profile_succeeds:
  assumes "distinct hs"
    and "\<not> (\<exists>row \<in> set (sampled_rows m rows). date_cell L hs row)"
    and "m = STRICT \<longrightarrow> rows \<noteq> [] \<and> length rows \<le> MAX_ROWS"
  shows "\<exists>p. profile_from_text L hs rows d m e = Inr p"
proof (cases m)
  case FAST
  then have R: "sampled_rows m rows = take FAST_SAMPLE_ROWS rows"
    by (simp add: sampled_rows_def sample_limit_of_def)
  from scan_rows_ok[OF assms(2)] obtain st where
    st: "scan_rows L hs (take FAST_SAMPLE_ROWS rows) (init_stats hs, {}) = Inr st"
    unfolding R by blast
  from scan_then_build_ok[OF assms(1) st] obtain cs where
    "build_constraints L (length (take FAST_SAMPLE_ROWS rows)) (fst st) hs = Inr cs" by blast
  with st show ?thesis unfolding FAST profile_fast_eq by simp
next
  case STRICT
  then have R: "sampled_rows m rows = rows"
    by (simp add: sampled_rows_def sample_limit_of_def)
  from scan_rows_ok[OF assms(2)] obtain st where
    st: "scan_rows L hs rows (init_stats hs, {}) = Inr st"
    unfolding R by blast
  from scan_then_build_ok[OF assms(1) st] obtain cs where
    "build_constraints L (length rows) (fst st) hs = Inr cs" by blast
  with st assms(3) STRICT show ?thesis unfolding STRICT profile_strict_eq by simp
qed

section \<open>Facts about synthesis\<close>

lemma digit_char: "d < 10 \<Longrightarrow> is_digit (char_of (48 + d :: nat)) \<and> of_char (char_of (48 + d :: nat)) = (48 + d :: nat)"
  by (simp add: is_digit_def less_eq_char_def)

lemma digit_not_space: "is_digit c \<Longrightarrow> \<not> is_space c"
  by (auto simp: is_digit_def is_space_def less_eq_char_def)

lemma str_nat_digits: "list_all is_digit (str_nat n) \<and> str_nat n \<noteq> []"
proof (induction n rule: str_nat.induct)
  case (1 n)
  show ?case
  proof (cases "n < 10")
    case True
    then show ?thesis using digit_char[of n] by (subst str_nat.simps, subst str_nat.simps) simp
  next
    case False
    have "n mod 10 < 10" by simp
    from digit_char[OF this] 1[OF False] False show ?thesis
      by (subst str_nat.simps, subst str_nat.simps) simp
  qed
qed

lemma digits_val_snoc: "digits_val (ds @ [c]) = 10 * digits_val ds + (of_char c - 48)"
  by (simp add: digits_val_def)

lemma digits_val_str_nat: "digits_val (str_nat n) = n"
proof (induction n rule: str_nat.induct)
  case (1 n)
  show ?case
  proof (cases "n < 10")
    case True
    then show ?thesis using digit_char[of n]
      by (subst str_nat.simps) (simp add: digits_val_def)
  next
    case False
    have "n mod 10 < 10" by simp
    from digit_char[OF this] 1[OF False] False show ?thesis
      by (subst str_nat.simps) (simp add: digits_val_snoc)
  qed
qed

lemma strip_digits:
  assumes "s \<noteq> []" "\<not> is_space (hd s)" "\<not> is_space (last s)"
  shows "strip s = s"
proof -
  from assms have a: "dropWhile is_space s = s" by (cases s) auto
  from assms have "\<not> is_space (hd (rev s))" "rev s \<noteq> []" by (simp_all add: hd_rev)
  then have "dropWhile is_space (rev s) = rev s" by (cases "rev s") auto
  with a show ?thesis by (simp add: strip_def)
qed

lemma ref_int_digits:
  assumes dg: "list_all is_digit ds" and ne: "ds \<noteq> []"
  shows "ref_int ds = Some (int (digits_val ds))"
    and "ref_int (CHR ''-'' # ds) = Some (- int (digits_val ds))"
proof -
  from dg ne have h: "is_digit (hd ds)" and l: "is_digit (last ds)"
    by (auto simp: list_all_iff)
  note hn = digit_not_space[OF h] and ln = digit_not_space[OF l]
  have ms: "\<not> is_space CHR ''-''" by (simp add: is_space_def)
  have hs: "hd ds \<noteq> CHR ''+''" "hd ds \<noteq> CHR ''-''"
    using h by (auto simp: is_digit_def less_eq_char_def)
  have st: "strip ds = ds" using ne hn ln by (intro strip_digits) simp_all
  from ne hs have ss: "strip_sign ds = ds" by (cases ds) (auto simp: strip_sign_def)
  show "ref_int ds = Some (int (digits_val ds))"
    using dg ne hs by (simp add: ref_int_def st ss Let_def)
  have st': "strip (CHR ''-'' # ds) = CHR ''-'' # ds"
    using ne ln ms by (intro strip_digits) simp_all
  show "ref_int (CHR ''-'' # ds) = Some (- int (digits_val ds))"
    using dg ne by (simp add: ref_int_def st' strip_sign_def Let_def)
qed

lemma ref_int_str_int: "ref_int (str_int v) = Some v"
proof (cases "v < 0")
  case True
  from str_nat_digits[of "nat (- v)"] ref_int_digits(2)[of "str_nat (nat (- v))"] True
  show ?thesis by (simp add: str_int_def digits_val_str_nat)
next
  case False
  from str_nat_digits[of "nat v"] ref_int_digits(1)[of "str_nat (nat v)"] False
  show ?thesis by (simp add: str_int_def digits_val_str_nat)
qed

lemma str_int_not_empty: "str_int v \<noteq> []"
  using str_nat_digits by (simp add: str_int_def)

lemma ref_random_ok: "random_ok ref_random"
proof -
  have ch: "length (fst (lcg_indices n k g)) = k \<and> (0 < n \<longrightarrow> (\<forall>i \<in> set (fst (lcg_indices n k g)). i < n))" for n k g
    by (induction n k g rule: lcg_indices.induct) (auto simp: Let_def split: prod.splits)
  have ri: "a \<le> a + int (x mod nat (b - a + 1)) \<and> a + int (x mod nat (b - a + 1)) \<le> b" if "a \<le> b" for a b :: int and x :: nat
  proof -
    from that have "x mod nat (b - a + 1) < nat (b - a + 1)" by simp
    then show ?thesis by linarith
  qed
  show ?thesis
    unfolding random_ok_def ref_random_def using ch ri by simp
qed

lemma integer_bounds_10_20:
  assumes "min_value c = Some (Finite 10)" "max_value c = Some (Finite 20)"
  shows "integer_bounds c = Inr (10, 20)"
  using assms by (simp add: integer_bounds_def int_of_float_def)

lemma py_randint_ok:
  assumes "random_ok R" "a \<le> b"
  shows "\<exists>v w'. py_randint R a b w = Inr (v, w') \<and> a \<le> v \<and> v \<le> b"
proof -
  obtain v g where r: "randint R a b (rng w) = (v, g)" by (cases "randint R a b (rng w)")
  from assms have "a \<le> fst (randint R a b (rng w)) \<and> fst (randint R a b (rng w)) \<le> b"
    unfolding random_ok_def by blast
  with r assms(2) show ?thesis by (simp add: py_randint_def)
qed

lemma generate_integer_10_20:
  assumes "random_ok R" "min_value c = Some (Finite 10)" "max_value c = Some (Finite 20)"
  shows "\<exists>v w'. generate_integer R L c w = Inr (str_int v, w') \<and> 10 \<le> v \<and> v \<le> 20"
proof (cases "parsed_allowed_numbers (allowed_values c) (int_of_str L) = []")
  case True
  from py_randint_ok[OF assms(1), of 10 20 w] obtain v w' where
    "py_randint R 10 20 w = Inr (v, w')" "10 \<le> v" "v \<le> 20" by auto
  with True have "generate_integer R L c w = Inr (str_int v, w')"
    by (simp add: generate_integer_def integer_bounds_10_20[OF assms(2,3)])
  with \<open>10 \<le> v\<close> \<open>v \<le> 20\<close> show ?thesis by blast
next
  case False
  obtain pick w1 where p: "choice R (parsed_allowed_numbers (allowed_values c) (int_of_str L)) w = (pick, w1)"
    by (cases "choice R (parsed_allowed_numbers (allowed_values c) (int_of_str L)) w")
  from py_randint_ok[OF assms(1), of "- 5" 5 w1] obtain j w2 where
    j: "py_randint R (- 5) 5 w1 = Inr (j, w2)" by auto
  have "generate_integer R L c w = Inr (str_int (max 10 (min 20 (pick + j))), w2)"
    using False p j by (simp add: generate_integer_def integer_bounds_10_20[OF assms(2,3)])
  then show ?thesis by auto
qed



lemma bounds_without_limits:
  assumes "min_value c = None" and "max_value c = None"
  shows "float_bounds c = (Finite 0, Finite 1000)"
    and "decimal_bounds S c = Inr (DFinite 0, DFinite 1000)"
  using assms by (simp_all add: float_bounds_def decimal_bounds_def float_max_def dec_eq_def)

section \<open>Synthesis depends on the generator only, for fields with given date bounds\<close>

lemma same_outcome_simps [simp]:
  "same_outcome (Inl e) r' \<longleftrightarrow> r' = Inl e"
  "same_outcome (Inr (v, a)) (Inr (v', a')) \<longleftrightarrow> v = v' \<and> same_draws a a'"
  "\<not> same_outcome (Inr x) (Inl e')"
  by (auto simp: same_outcome_def split: prod.splits)

lemma same_outcome_pairs:
  "same_outcome (Inr p) (Inr p') \<longleftrightarrow> fst p = fst p' \<and> same_draws (snd p) (snd p')"
  by (cases p; cases p') simp

lemma same_outcome_bind:
  assumes "same_outcome r r'"
    and "\<And>v a a'. same_draws a a' \<Longrightarrow> same_outcome (k v a) (k' v a')"
  shows "same_outcome (case r of Inl e \<Rightarrow> Inl e | Inr (v, a) \<Rightarrow> k v a)
                      (case r' of Inl e \<Rightarrow> Inl e | Inr (v, a) \<Rightarrow> k' v a)"
proof (cases r)
  case (Inl e)
  with assms(1) show ?thesis by simp
next
  case (Inr x)
  obtain v a where x: "x = (v, a)" by (cases x)
  from assms(1) Inr x obtain a' where r': "r' = Inr (v, a')" and sd: "same_draws a a'"
    by (cases r') (auto simp: same_outcome_def)
  from assms(2)[OF sd] show ?thesis by (simp add: Inr x r')
qed

lemma same_outcome_result:
  "same_outcome r r' \<Longrightarrow> map_sum id fst r = map_sum id fst r'"
  by (cases r; cases r') (auto simp: same_outcome_def)

lemma same_draws_rng [simp]:
  "same_draws w w' \<Longrightarrow> same_draws (w\<lparr>rng := g\<rparr>) (w'\<lparr>rng := g\<rparr>)"
  by (simp add: same_draws_def clock_ok_def)

lemma choice_same:
  assumes "same_draws w w'"
  shows "fst (choice R xs w) = fst (choice R xs w')"
    and "same_draws (snd (choice R xs w)) (snd (choice R xs w'))"
  using assms by (auto simp: choice_def same_draws_def clock_ok_def split: prod.splits)

lemma py_randint_same:
  assumes "same_draws w w'"
  shows "same_outcome (py_randint R a b w) (py_randint R a b w')"
  using assms by (auto simp: py_randint_def same_draws_def clock_ok_def split: prod.splits)

lemma scrambled_token_same:
  assumes "same_draws w w'"
  shows "same_outcome (scrambled_token R lo hi w) (scrambled_token R lo hi w')"
  unfolding scrambled_token_def Let_def
proof (rule same_outcome_bind[OF py_randint_same[OF assms]])
  fix v :: int and a a' :: "'a world"
  assume "same_draws a a'"
  then show "same_outcome
      (case choices R (length alphabet) (nat v) (rng a) of
         (idxs, g) \<Rightarrow> Inr (map ((!) alphabet) idxs, a\<lparr>rng := g\<rparr>))
      (case choices R (length alphabet) (nat v) (rng a') of
         (idxs, g) \<Rightarrow> Inr (map ((!) alphabet) idxs, a'\<lparr>rng := g\<rparr>))"
    by (auto simp: same_draws_def clock_ok_def split: prod.splits)
qed

lemma generate_integer_same:
  assumes "same_draws w w'"
  shows "same_outcome (generate_integer R L c w) (generate_integer R L c w')"
proof (cases "integer_bounds c")
  case (Inl e)
  then show ?thesis by (simp add: generate_integer_def)
next
  case (Inr b)
  obtain low high where b: "b = (low, high)" by (cases b)
  let ?al = "parsed_allowed_numbers (allowed_values c) (int_of_str L)"
  show ?thesis
  proof (cases "?al = []")
    case True
    have "same_outcome
            (case py_randint R low high w of Inl e \<Rightarrow> Inl e | Inr (v, w1) \<Rightarrow> Inr (str_int v, w1))
            (case py_randint R low high w' of Inl e \<Rightarrow> Inl e | Inr (v, w1) \<Rightarrow> Inr (str_int v, w1))"
      by (rule same_outcome_bind[OF py_randint_same[OF assms]]) simp
    with True Inr b show ?thesis by (simp add: generate_integer_def)
  next
    case False
    obtain pick w1 where c1: "choice R ?al w = (pick, w1)" by (cases "choice R ?al w")
    obtain pick' w1' where c2: "choice R ?al w' = (pick', w1')" by (cases "choice R ?al w'")
    from choice_same[OF assms, of R ?al] c1 c2 have pk: "pick' = pick" and sd: "same_draws w1 w1'"
      by simp_all
    show ?thesis
      unfolding generate_integer_def Let_def Inr b sum.case prod.case if_P[OF False] c1 c2 pk
      by (rule same_outcome_bind[OF py_randint_same[OF sd]]) simp
  qed
qed

lemma generate_float_same:
  assumes "same_draws w w'"
  shows "same_outcome (generate_float R L S c d w) (generate_float R L S c d w')"
proof -
  obtain low high where b: "float_bounds c = (low, high)" by (cases "float_bounds c")
  let ?al = "parsed_allowed_numbers (allowed_values c) (float_of_str L)"
  note ch = choice_same[OF assms, of R ?al]
  from ch(2) have r: "rng (snd (choice R ?al w)) = rng (snd (choice R ?al w'))"
    by (simp add: same_draws_def)
  from assms have r0: "rng w = rng w'" by (simp add: same_draws_def)
  show ?thesis
    unfolding generate_float_def Let_def b
    using ch assms by (simp add: case_prod_beta r r0)
qed

lemma decimal_candidate_same:
  assumes "same_draws w w'"
  shows "same_outcome (decimal_candidate R S al low high w) (decimal_candidate R S al low high w')"
proof (cases "dec_sub high low")
  case (Inl e)
  then show ?thesis by (simp add: decimal_candidate_def)
next
  case (Inr width)
  from assms have r0: "rng w = rng w'" by (simp add: same_draws_def)
  show ?thesis
  proof (cases "al = []")
    case True
    with Inr assms show ?thesis
      by (auto simp: decimal_candidate_def r0 case_prod_beta split: sum.splits)
  next
    case False
    note ch = choice_same[OF assms, of R al]
    from ch(2) have r: "rng (snd (choice R al w)) = rng (snd (choice R al w'))"
      by (simp add: same_draws_def)
    from False Inr ch show ?thesis
      by (auto simp: decimal_candidate_def r case_prod_beta Let_def split: sum.splits)
  qed
qed

lemma generate_decimal_same:
  assumes "same_draws w w'"
  shows "same_outcome (generate_decimal R L S c d w) (generate_decimal R L S c d w')"
proof (cases "decimal_bounds S c")
  case (Inl e)
  then show ?thesis by (simp add: generate_decimal_def)
next
  case (Inr b)
  obtain low high where b: "b = (low, high)" by (cases b)
  let ?al = "parsed_allowed_numbers (allowed_values c) (Decimal_of_str L)"
  have "same_outcome
          (case decimal_candidate R S ?al low high w of Inl e \<Rightarrow> Inl e
           | Inr (candidate, w1) \<Rightarrow>
               (case quantize_format S candidate of Inl e \<Rightarrow> Inl e
                | Inr out \<Rightarrow> Inr (with_separator d out, w1)))
          (case decimal_candidate R S ?al low high w' of Inl e \<Rightarrow> Inl e
           | Inr (candidate, w1) \<Rightarrow>
               (case quantize_format S candidate of Inl e \<Rightarrow> Inl e
                | Inr out \<Rightarrow> Inr (with_separator d out, w1)))"
    by (rule same_outcome_bind[OF decimal_candidate_same[OF assms]]) (simp split: sum.splits)
  with Inr b show ?thesis by (simp add: generate_decimal_def)
qed

lemma generate_string_same:
  assumes "same_draws w w'"
  shows "same_outcome (generate_string R c w) (generate_string R c w')"
proof (cases "allowed_values c")
  case None
  then show ?thesis
    by (simp add: generate_string_def Let_def scrambled_token_same[OF assms])
next
  case (Some vs)
  show ?thesis
  proof (cases vs)
    case Nil
    with Some show ?thesis
      by (simp add: generate_string_def Let_def scrambled_token_same[OF assms])
  next
    case (Cons v vs')
    note ch = choice_same[OF assms, of R "v # vs'"]
    from Some Cons show ?thesis
      by (simp add: generate_string_def Let_def case_prod_beta mutate_string_def ch(1)
            scrambled_token_same[OF ch(2)])
  qed
qed

lemma parse_bound_given:
  "bound_given b \<Longrightarrow> parse_bound L b d1 = parse_bound L b d2"
  by (auto simp: bound_given_def parse_bound_def split: option.splits)

lemma now_same:
  assumes "same_draws w w'"
  shows "same_draws (snd (now w)) (snd (now w'))"
    and "\<exists>s. datetime_shift (fst (now w)) (- (365 * 86400000000)) = Inr s"
  using assms
  by (auto simp: now_def same_draws_def clock_ok_def datetime_shift_def max_wall_def
        intro: order_trans)

lemma date_window_same:
  assumes "same_draws w w'" and "bound_given (date_min c)" and "bound_given (date_max c)"
  shows "same_outcome (date_window L c w) (date_window L c w')"
proof -
  obtain n1 w1 where a1: "now w = (n1, w1)" by (cases "now w")
  obtain n2 w2 where a2: "now w1 = (n2, w2)" by (cases "now w1")
  obtain n1' w1' where b1: "now w' = (n1', w1')" by (cases "now w'")
  obtain n2' w2' where b2: "now w1' = (n2', w2')" by (cases "now w1'")
  have sym: "same_draws w' w" using assms(1) by (simp add: same_draws_def)
  obtain s where s: "datetime_shift n1 (- (365 * 86400000000)) = Inr s"
    using now_same(2)[OF assms(1)] a1 by auto
  obtain s' where s': "datetime_shift n1' (- (365 * 86400000000)) = Inr s'"
    using now_same(2)[OF sym] b1 by auto
  from now_same(1)[OF assms(1)] a1 b1 have "same_draws w1 w1'" by simp
  from now_same(1)[OF this] a2 b2 have sd: "same_draws w2 w2'" by simp
  have p1: "parse_bound L (date_min c) s = parse_bound L (date_min c) s'"
    by (rule parse_bound_given[OF assms(2)])
  have p2: "parse_bound L (date_max c) n2 = parse_bound L (date_max c) n2'"
    by (rule parse_bound_given[OF assms(3)])
  show ?thesis
    unfolding date_window_def Let_def a1 a2 b1 b2 prod.case s s' sum.case p1 p2
    using sd by (auto split: sum.splits)
qed

lemma generate_date_same:
  assumes "same_draws w w'" and "bound_given (date_min c)" and "bound_given (date_max c)"
  shows "same_outcome (generate_date R L S c w) (generate_date R L S c w')"
  unfolding generate_date_def
proof (rule same_outcome_bind[OF date_window_same[OF assms]])
  fix v :: "datetime \<times> datetime" and a a' :: "'a world"
  assume sd: "same_draws a a'"
  obtain start fin where v: "v = (start, fin)" by (cases v)
  show "same_outcome
          (case v of (start, end) \<Rightarrow>
             case datetime_diff end start of Inl e \<Rightarrow> Inl e
             | Inr delta \<Rightarrow>
                 let delta_seconds = if delta < 0 then - (- delta div 1000000) else delta div 1000000
                 in case py_randint R 0 (max 1 delta_seconds) a of Inl e \<Rightarrow> Inl e
                    | Inr (offset, w2) \<Rightarrow>
                        (case datetime_shift start (offset * 1000000) of Inl e \<Rightarrow> Inl e
                         | Inr sample_dt \<Rightarrow>
                             if ftype c = DATE then Inr (date_isoformat S sample_dt, w2)
                             else Inr (seconds_isoformat S sample_dt, w2)))
          (case v of (start, end) \<Rightarrow>
             case datetime_diff end start of Inl e \<Rightarrow> Inl e
             | Inr delta \<Rightarrow>
                 let delta_seconds = if delta < 0 then - (- delta div 1000000) else delta div 1000000
                 in case py_randint R 0 (max 1 delta_seconds) a' of Inl e \<Rightarrow> Inl e
                    | Inr (offset, w2) \<Rightarrow>
                        (case datetime_shift start (offset * 1000000) of Inl e \<Rightarrow> Inl e
                         | Inr sample_dt \<Rightarrow>
                             if ftype c = DATE then Inr (date_isoformat S sample_dt, w2)
                             else Inr (seconds_isoformat S sample_dt, w2)))"
  proof (cases "datetime_diff fin start")
    case (Inl e)
    then show ?thesis by (simp add: v)
  next
    case (Inr delta)
    show ?thesis
      unfolding v prod.case Inr sum.case Let_def
      by (rule same_outcome_bind[OF py_randint_same[OF sd]]) (simp split: sum.splits)
  qed
qed

lemma generate_value_same:
  assumes "same_draws w w'" and "clock_free c"
  shows "same_outcome (generate_value R L S c d w) (generate_value R L S c d w')"
proof -
  from assms(1) have r0: "rng w = rng w'" by (simp add: same_draws_def)
  obtain u g where r: "random R (rng w') = (u, g)" by (cases "random R (rng w')")
  have sd: "same_draws (w\<lparr>rng := g\<rparr>) (w'\<lparr>rng := g\<rparr>)" using assms(1) by simp
  note ch = choice_same[OF sd, of R "[''true'', ''false'']"]
  have dt: "ftype c \<in> {DATE, DATETIME} \<Longrightarrow>
        same_outcome (generate_date R L S c (w\<lparr>rng := g\<rparr>)) (generate_date R L S c (w'\<lparr>rng := g\<rparr>))"
    using assms(2) generate_date_same[OF sd] by (simp add: clock_free_def)
  show ?thesis
    unfolding generate_value_def r0 r prod.case Let_def
    using sd ch dt
    by (simp add: case_prod_beta same_outcome_pairs generate_integer_same generate_float_same
          generate_decimal_same generate_string_same)
qed

lemma generate_row_same:
  assumes "same_draws w w'" and "\<forall>c \<in> set cs. clock_free c"
  shows "same_outcome (generate_row R L S cs d w) (generate_row R L S cs d w')"
  using assms
proof (induction cs arbitrary: w w')
  case Nil
  then show ?case by simp
next
  case (Cons c cs)
  from Cons.prems have cf: "clock_free c" and rest: "\<forall>c \<in> set cs. clock_free c" by simp_all
  show ?case
    unfolding generate_row.simps
  proof (rule same_outcome_bind[OF generate_value_same[OF Cons.prems(1) cf]])
    fix v :: string and a a' :: "'a world"
    assume "same_draws a a'"
    from Cons.IH[OF this rest]
    show "same_outcome
            (case generate_row R L S cs d a of Inl e \<Rightarrow> Inl e | Inr (vs, w2) \<Rightarrow> Inr (v # vs, w2))
            (case generate_row R L S cs d a' of Inl e \<Rightarrow> Inl e | Inr (vs, w2) \<Rightarrow> Inr (v # vs, w2))"
      by (rule same_outcome_bind) simp
  qed
qed

lemma rows_loop_same:
  assumes "same_draws w w'" and "\<forall>c \<in> set cs. clock_free c"
  shows "same_outcome (rows_loop R L S cs d n w) (rows_loop R L S cs d n w')"
  using assms(1)
proof (induction n arbitrary: w w')
  case 0
  then show ?case by simp
next
  case (Suc n)
  show ?case
    unfolding rows_loop.simps
  proof (rule same_outcome_bind[OF generate_row_same[OF Suc.prems assms(2)]])
    fix v :: "string list" and a a' :: "'a world"
    assume "same_draws a a'"
    from Suc.IH[OF this]
    show "same_outcome
            (case rows_loop R L S cs d n a of Inl e \<Rightarrow> Inl e | Inr (rs, w2) \<Rightarrow> Inr (v # rs, w2))
            (case rows_loop R L S cs d n a' of Inl e \<Rightarrow> Inl e | Inr (rs, w2) \<Rightarrow> Inr (v # rs, w2))"
      by (rule same_outcome_bind) simp
  qed
qed

lemma generate_rows_seeded_same:
  assumes "clock_ok w" and "clock_ok w'" and "\<forall>c \<in> set (pfields P). clock_free c"
  shows "same_outcome (generate_rows R L S P n (Some s) w) (generate_rows R L S P n (Some s) w')"
proof -
  from assms(1,2) have "same_draws (w\<lparr>rng := seed R s\<rparr>) (w'\<lparr>rng := seed R s\<rparr>)"
    by (simp add: same_draws_def clock_ok_def)
  from rows_loop_same[OF this assms(3)] show ?thesis
    by (simp add: generate_rows_def Let_def)
qed

lemma profile_to_csv_seeded_same:
  assumes "clock_ok w" and "clock_ok w'" and "\<forall>c \<in> set (pfields P). clock_free c"
  shows "same_outcome (profile_to_csv R L S P n (Some s) ds w) (profile_to_csv R L S P n (Some s) ds w')"
proof (cases "length (delimiter P) \<noteq> 1")
  case True
  then show ?thesis by (simp add: profile_to_csv_def)
next
  case False
  show ?thesis
    unfolding profile_to_csv_def Let_def using False
    by (simp, intro same_outcome_bind[OF generate_rows_seeded_same[OF assms]]) (simp split: sum.splits)
qed

section \<open>Facts about the example inputs\<close>

lemma big_rows_no_dates: "\<not> (\<exists>row \<in> set (take n big_rows). date_cell ref_lib [''a''] row)"
proof -
  have "\<not> date_cell ref_lib [''a''] [''a'' \<mapsto> ''x'']" by code_simp
  moreover have "set (take n big_rows) \<subseteq> {[''a'' \<mapsto> ''x'']}"
    using set_take_subset[of n big_rows] by (auto simp: big_rows_def)
  ultimately show ?thesis by blast
qed

lemma big_rows_fast_ok: "\<exists>p. profile_from_text ref_lib [''a''] big_rows '','' FAST ''utf-8'' = Inr p"
proof (rule profile_succeeds)
  show "distinct [''a'']" by simp
  show "\<not> (\<exists>row \<in> set (sampled_rows FAST big_rows). date_cell ref_lib [''a''] row)"
    unfolding sampled_rows_def sample_limit_of_def using big_rows_no_dates by simp
  show "FAST = STRICT \<longrightarrow> big_rows \<noteq> [] \<and> length big_rows \<le> MAX_ROWS" by simp
qed



lemma world_at_clock_ok:
  "365 * 86400000000 \<le> wall t \<Longrightarrow> wall t \<le> max_wall \<Longrightarrow> clock_ok (world_at g t)"
  by (simp add: clock_ok_def world_at_def)

lemma new_year_walls:
  "wall new_year_2024 = 63839664000000000" "wall new_year_2025 = 63871286400000000"
  by (simp_all add: new_year_2024_def new_year_2025_def days_of_civil_def Let_def)

lemma example_clocks_ok: "clock_ok (world_at g new_year_2024)" "clock_ok (world_at g new_year_2025)"
  by (rule world_at_clock_ok; simp add: new_year_walls max_wall_def)+

section \<open>Columns without a non-empty cell\<close>

lemma register_all_empty_cells:
  "\<forall>v \<in> set vs. v = [] \<Longrightarrow> register_all L s vs = Inr s' \<Longrightarrow>
   min_len s' = min_len s \<and> max_len s' = max_len s \<and> allowed_set s' = allowed_set s
   \<and> nulls s' = nulls s + length vs"
proof (induction vs arbitrary: s)
  case Nil
  then show ?case by simp
next
  case (Cons v vs)
  from Cons.prems(1) have v: "v = []" and rest: "\<forall>v \<in> set vs. v = []" by auto
  from Cons.prems(2) obtain s1 where 1: "register L s v (detect_type L v) = Inr s1"
    and 2: "register_all L s1 vs = Inr s'" by (auto split: sum.splits)
  from 1 v have "s1 = s\<lparr> type_counts := bump (detect_type L []) (type_counts s), nulls := nulls s + 1 \<rparr>"
    by (simp add: register_empty)
  then have "min_len s1 = min_len s" "max_len s1 = max_len s" "allowed_set s1 = allowed_set s"
    "nulls s1 = nulls s + 1" by simp_all
  with Cons.IH[OF rest 2] show ?case by simp
qed

lemma empty_column_constraint:
  assumes "profile_from_text L hs rows d m e = Inr p" "distinct hs" "i < length hs"
    and "\<forall>v \<in> set (column (hs ! i) (sampled_rows m rows)). v = []"
  shows "ftype (pfields p ! i) = EMPTY"
    and "min_length (pfields p ! i) = None"
    and "max_length (pfields p ! i) = Some 0"
    and "allowed_values (pfields p ! i) = None"
    and "null_fraction (pfields p ! i) = (if sampled_rows m rows = [] then 0 else 1)"
proof -
  let ?vs = "column (hs ! i) (sampled_rows m rows)"
  from profile_column(2)[OF assms(1-3)] obtain fs where
    ra: "register_all L (new_FieldStats (hs ! i)) ?vs = Inr fs"
    and fin: "finalize L (length (sampled_rows m rows)) (hs ! i) fs = Inr (pfields p ! i)"
    by blast
  note c = finalize_Inr[OF fin]
  from register_all_empty_cells[OF assms(4) ra] have
    f: "min_len fs = None" "max_len fs = 0" "allowed_set fs = {}" "nulls fs = length ?vs"
    by (simp_all add: new_FieldStats_def)
  have "\<forall>t. t \<noteq> EMPTY \<longrightarrow> type_count L t ?vs = 0"
    using assms(4) unfolding type_count_def
    by (auto simp: filter_empty_conv detect_type_EMPTY_iff)
  from final_type_of_counts(1)[of "\<lambda>t. type_count L t ?vs", OF this]
  show "ftype (pfields p ! i) = EMPTY"
    using c column_type_counts[OF ra] by simp
  show "min_length (pfields p ! i) = None" using c f by simp
  show "max_length (pfields p ! i) = Some 0" using c f by simp
  show "allowed_values (pfields p ! i) = None" using c f by simp
  have "length ?vs = length (sampled_rows m rows)" by (simp add: column_def)
  then show "null_fraction (pfields p ! i) = (if sampled_rows m rows = [] then 0 else 1)"
    using c f by simp
qed

section \<open>Order of the recorded bounds\<close>

lemma float_le_refl: "x \<noteq> NaN \<Longrightarrow> float_le x x"
  by (cases x) (simp_all add: float_le_def)

lemma float_min_max_ordered:
  assumes "float_le a b \<or> (a = NaN \<and> b = NaN)"
  shows "float_le (float_min a x) (float_max b x) \<or> (float_min a x = NaN \<and> float_max b x = NaN)"
  using assms
  by (cases a; cases b; cases x) (auto simp: float_le_def float_min_def float_max_def)

lemma register_length_ordered: "lengths_ordered (register_length s v)"
  by (auto simp: lengths_ordered_def register_length_def min_le_iff_disj le_max_iff_disj
      split: option.splits)

lemma register_numeric_ordered:
  assumes "values_ordered s"
  shows "values_ordered (register_numeric L s v t)"
proof (cases "t \<in> {INTEGER, FLOAT, DECIMAL} \<and> normalize_numeric L v \<noteq> None")
  case False
  with assms show ?thesis by (auto simp: register_numeric_def)
next
  case True
  then obtain x where x: "normalize_numeric L v = Some x" by auto
  show ?thesis
  proof (cases "min_val s")
    case None
    with assms have "max_val s = None" by (simp add: values_ordered_def split: option.splits)
    with None True x show ?thesis
      using float_le_refl[of x] by (auto simp: register_numeric_def values_ordered_def)
  next
    case (Some a)
    with assms obtain b where b: "max_val s = Some b" "float_le a b \<or> (a = NaN \<and> b = NaN)"
      by (auto simp: values_ordered_def split: option.splits)
    from float_min_max_ordered[OF b(2), of x] Some b(1) True x show ?thesis
      by (simp add: register_numeric_def values_ordered_def)
  qed
qed

lemma datetime_lt_irrefl: "datetime_lt a a = Inr False"
  by (simp add: datetime_lt_def split: option.splits)

lemma datetime_min_max_ordered:
  assumes "datetime_lt b a = Inr False" "datetime_min a x = Inr lo" "datetime_max b x = Inr hi"
  shows "datetime_lt hi lo = Inr False"
  using assms
  by (auto simp: datetime_lt_def datetime_min_def datetime_max_def
      split: option.splits sum.splits if_splits)

lemma register_date_ordered:
  assumes "dates_ordered s" "register_date L s v t = Inr s'"
  shows "dates_ordered s'"
proof (cases "t \<in> {DATE, DATETIME}")
  case False
  with assms show ?thesis by (simp add: register_date_def)
next
  case True
  show ?thesis
  proof (cases "parse_datetime L v")
    case None
    with assms True show ?thesis by (simp add: register_date_def)
  next
    case (Some dt)
    show ?thesis
    proof (cases "min_date s")
      case None
      with assms(1) have mx: "max_date s = None"
        by (simp add: dates_ordered_def split: option.splits)
      from assms(2) True Some None mx have "s' = s\<lparr> min_date := Some dt, max_date := Some dt \<rparr>"
        by (simp add: register_date_def)
      then show ?thesis by (simp add: dates_ordered_def datetime_lt_irrefl)
    next
      case a: (Some a)
      with assms(1) obtain b where b: "max_date s = Some b" "datetime_lt b a = Inr False"
        by (auto simp: dates_ordered_def split: option.splits)
      from assms(2) True Some a b(1) obtain lo hi where
        lo: "datetime_min a dt = Inr lo" and hi: "datetime_max b dt = Inr hi"
        and s': "s' = s\<lparr> min_date := Some lo, max_date := Some hi \<rparr>"
        by (auto simp: register_date_def split: sum.splits)
      from datetime_min_max_ordered[OF b(2) lo hi] s' show ?thesis
        by (simp add: dates_ordered_def)
    qed
  qed
qed

lemma register_date_keeps:
  assumes "register_date L s v t = Inr s'"
  shows "lengths_ordered s' = lengths_ordered s" "values_ordered s' = values_ordered s"
  using register_date_fields[OF assms]
  by (simp_all add: lengths_ordered_def values_ordered_def split: option.splits)

lemma register_ordered:
  assumes "bounds_ordered s" "register L s v t = Inr s'"
  shows "bounds_ordered s'"
proof (cases "v = []")
  case True
  with assms(2) have "s' = s\<lparr> type_counts := bump t (type_counts s), nulls := nulls s + 1 \<rparr>"
    by (simp add: register_empty)
  with assms(1) show ?thesis
    by (simp add: bounds_ordered_def lengths_ordered_def values_ordered_def dates_ordered_def
        split: option.splits)
next
  case False
  let ?s1 = "s\<lparr> type_counts := bump t (type_counts s) \<rparr>"
  let ?s2 = "register_numeric L (register_length ?s1 v) v t"
  from register_nonempty[OF False assms(2)] obtain s3 where
    d: "register_date L ?s2 v t = Inr s3" and s': "s' = register_allowed s3 v" by blast
  have l2: "lengths_ordered ?s2"
    using register_length_ordered[of ?s1 v] by (simp add: lengths_ordered_def split: option.splits)
  have "values_ordered (register_length ?s1 v)"
    using assms(1) by (simp add: bounds_ordered_def values_ordered_def split: option.splits)
  then have v2: "values_ordered ?s2" by (rule register_numeric_ordered)
  have "dates_ordered ?s2"
    using assms(1) by (simp add: bounds_ordered_def dates_ordered_def split: option.splits)
  then have d3: "dates_ordered s3" using d by (rule register_date_ordered)
  from register_date_keeps[OF d] l2 v2 have "lengths_ordered s3" "values_ordered s3" by simp_all
  with d3 s' show ?thesis
    by (simp add: bounds_ordered_def lengths_ordered_def values_ordered_def dates_ordered_def
        split: option.splits)
qed

lemma scan_cell_ordered:
  assumes "all_stats bounds_ordered st" "scan_cell L row st h = Inr st'"
  shows "all_stats bounds_ordered st'"
proof -
  from scan_cell_Inr[OF assms(2)] obtain fs fs' where
    a: "fst st h = Some fs"
    and b: "register L fs (cell row h) (detect_type L (cell row h)) = Inr fs'"
    and c: "fst st' = (fst st)(h \<mapsto> fs')" by blast
  from assms(1) a have "bounds_ordered fs" by (simp add: all_stats_def)
  from register_ordered[OF this b] assms(1) c show ?thesis
    by (auto simp: all_stats_def)
qed

lemma scan_row_ordered:
  "all_stats bounds_ordered st \<Longrightarrow> scan_row L row ks st = Inr st' \<Longrightarrow>
   all_stats bounds_ordered st'"
proof (induction ks arbitrary: st)
  case Nil
  then show ?case by simp
next
  case (Cons k ks)
  from Cons.prems(2) obtain st1 where 1: "scan_cell L row st k = Inr st1"
    and 2: "scan_row L row ks st1 = Inr st'" by (auto split: sum.splits)
  from Cons.IH[OF scan_cell_ordered[OF Cons.prems(1) 1] 2] show ?case .
qed

lemma scan_rows_ordered:
  "all_stats bounds_ordered st \<Longrightarrow> scan_rows L hs rows st = Inr st' \<Longrightarrow>
   all_stats bounds_ordered st'"
proof (induction rows arbitrary: st)
  case Nil
  then show ?case by simp
next
  case (Cons row rows)
  from Cons.prems(2) obtain st1 where 1: "scan_row L row hs st = Inr st1"
    and 2: "scan_rows L hs rows st1 = Inr st'" by (auto split: sum.splits)
  from Cons.IH[OF scan_row_ordered[OF Cons.prems(1) 1] 2] show ?case .
qed

lemma init_stats_ordered: "all_stats bounds_ordered (init_stats hs, seps)"
  by (auto simp: all_stats_def init_stats_def new_FieldStats_def bounds_ordered_def
      lengths_ordered_def values_ordered_def dates_ordered_def split: if_splits)

lemma profile_bounds_ordered:
  assumes "profile_from_text L hs rows d m e = Inr p" "i < length hs"
  shows "\<exists>fs. bounds_ordered fs
          \<and> min_length (pfields p ! i) = map_option int (min_len fs)
          \<and> max_length (pfields p ! i) = Some (int (max_len fs))
          \<and> min_value (pfields p ! i) = min_val fs
          \<and> max_value (pfields p ! i) = max_val fs
          \<and> date_min (pfields p ! i) = map_option (isoformat L) (min_date fs)
          \<and> date_max (pfields p ! i) = map_option (isoformat L) (max_date fs)"
proof -
  from profile_Inr[OF assms(1)] obtain st' where
    sc: "scan_rows L hs (sampled_rows m rows) (init_stats hs, {}) = Inr st'"
    and bc: "build_constraints L (length (sampled_rows m rows)) (fst st') hs = Inr (pfields p)"
    by blast
  from build_constraints_Inr[OF bc] assms(2) obtain fs where
    fs: "fst st' (hs ! i) = Some fs"
    and fin: "finalize L (length (sampled_rows m rows)) (hs ! i) fs = Inr (pfields p ! i)"
    by blast
  from scan_rows_ordered[OF init_stats_ordered sc] fs have "bounds_ordered fs"
    by (simp add: all_stats_def)
  with finalize_Inr[OF fin] show ?thesis by (intro exI[of _ fs]) simp
qed

lemma profile_bounds_invariant:
  assumes "profile_from_text L hs rows d m e = Inr p" "i < length hs"
  shows "(\<forall>a b. min_length (pfields p ! i) = Some a \<and> max_length (pfields p ! i) = Some b
            \<longrightarrow> a \<le> b)
       \<and> (\<forall>x y. min_value (pfields p ! i) = Some x \<and> max_value (pfields p ! i) = Some y
            \<longrightarrow> float_le x y \<or> (x = NaN \<and> y = NaN))
       \<and> (\<forall>s t. date_min (pfields p ! i) = Some s \<and> date_max (pfields p ! i) = Some t
            \<longrightarrow> (\<exists>a b. s = isoformat L a \<and> t = isoformat L b \<and> datetime_lt b a = Inr False))"
proof -
  from profile_bounds_ordered[OF assms] obtain fs where o: "bounds_ordered fs"
    and f: "min_length (pfields p ! i) = map_option int (min_len fs)"
    "max_length (pfields p ! i) = Some (int (max_len fs))"
    "min_value (pfields p ! i) = min_val fs" "max_value (pfields p ! i) = max_val fs"
    "date_min (pfields p ! i) = map_option (isoformat L) (min_date fs)"
    "date_max (pfields p ! i) = map_option (isoformat L) (max_date fs)" by blast
  from o have l: "lengths_ordered fs" and v: "values_ordered fs" and dd: "dates_ordered fs"
    by (simp_all add: bounds_ordered_def)
  have 1: "\<forall>a b. min_length (pfields p ! i) = Some a \<and> max_length (pfields p ! i) = Some b
            \<longrightarrow> a \<le> b"
    using l unfolding f lengths_ordered_def by (auto split: option.splits)
  have 2: "\<forall>x y. min_value (pfields p ! i) = Some x \<and> max_value (pfields p ! i) = Some y
            \<longrightarrow> float_le x y \<or> (x = NaN \<and> y = NaN)"
    using v unfolding f values_ordered_def by (auto split: option.splits)
  have 3: "\<forall>s t. date_min (pfields p ! i) = Some s \<and> date_max (pfields p ! i) = Some t
            \<longrightarrow> (\<exists>a b. s = isoformat L a \<and> t = isoformat L b \<and> datetime_lt b a = Inr False)"
    using dd unfolding f dates_ordered_def by (auto split: option.splits)
  from 1 2 3 show ?thesis by blast
qed

section \<open>The bounded set of distinct values\<close>

lemma register_allowed_set:
  assumes "register L s v t = Inr s'"
  shows "allowed_set s' =
           (if v \<noteq> [] \<and> card (allowed_set s) < 50 then insert v (allowed_set s)
            else allowed_set s)"
proof (cases "v = []")
  case True
  with assms have "s' = s\<lparr> type_counts := bump t (type_counts s), nulls := nulls s + 1 \<rparr>"
    by (simp add: register_empty)
  with True show ?thesis by simp
next
  case False
  from register_nonempty[OF False assms] obtain s2 where
    d: "register_date L (register_numeric L (register_length (s\<lparr> type_counts := bump t (type_counts s) \<rparr>) v) v t) v t = Inr s2"
    and s': "s' = register_allowed s2 v" by blast
  from register_date_fields(3)[OF d] have "allowed_set s2 = allowed_set s" by simp
  with s' False show ?thesis by (simp add: register_allowed_def)
qed

lemma card_capped_union:
  assumes "finite A" "card A = 50" "finite X"
  shows "min 50 (card (A \<union> X)) = 50"
proof -
  have "card A \<le> card (A \<union> X)" using assms by (intro card_mono) auto
  with assms(2) show ?thesis by simp
qed

lemma register_all_allowed:
  "register_all L s vs = Inr s' \<Longrightarrow> finite (allowed_set s) \<Longrightarrow> card (allowed_set s) \<le> 50 \<Longrightarrow>
   finite (allowed_set s')
   \<and> card (allowed_set s') = min 50 (card (allowed_set s \<union> set (filter (\<lambda>v. v \<noteq> []) vs)))
   \<and> allowed_set s' \<subseteq> allowed_set s \<union> set (filter (\<lambda>v. v \<noteq> []) vs)"
proof (induction vs arbitrary: s)
  case Nil
  then show ?case by simp
next
  case (Cons v vs)
  let ?A = "allowed_set s"
  let ?N = "set (filter (\<lambda>v. v \<noteq> []) vs)"
  from Cons.prems(1) obtain s1 where 1: "register L s v (detect_type L v) = Inr s1"
    and 2: "register_all L s1 vs = Inr s'" by (auto split: sum.splits)
  note A1 = register_allowed_set[OF 1]
  show ?case
  proof (cases "v \<noteq> [] \<and> card ?A < 50")
    case True
    with A1 have a1: "allowed_set s1 = insert v ?A" by simp
    have f1: "finite (allowed_set s1)" using a1 Cons.prems(2) by simp
    have c1: "card (allowed_set s1) \<le> 50"
      using a1 True Cons.prems(2) by (simp add: card_insert_if)
    have u: "allowed_set s1 \<union> ?N = ?A \<union> set (filter (\<lambda>v. v \<noteq> []) (v # vs))"
      using a1 True by auto
    from Cons.IH[OF 2 f1 c1] show ?thesis unfolding u by simp
  next
    case False
    with A1 have a1: "allowed_set s1 = ?A" by auto
    note ih = Cons.IH[OF 2, unfolded a1, OF Cons.prems(2,3)]
    show ?thesis
    proof (cases "v = []")
      case True
      with ih show ?thesis by simp
    next
      case nonempty: False
      with False Cons.prems(3) have full: "card ?A = 50" by simp
      have "min 50 (card (?A \<union> ?N)) = 50"
        by (rule card_capped_union[OF Cons.prems(2) full]) simp
      moreover have "min 50 (card (?A \<union> set (filter (\<lambda>v. v \<noteq> []) (v # vs)))) = 50"
        by (rule card_capped_union[OF Cons.prems(2) full]) simp
      ultimately show ?thesis using ih by auto
    qed
  qed
qed

lemma column_allowed_values:
  assumes "profile_from_text L hs rows d m e = Inr p" "distinct hs" "i < length hs"
  defines "seen \<equiv> set (filter (\<lambda>v. v \<noteq> []) (column (hs ! i) (sampled_rows m rows)))"
  shows "seen = {} \<Longrightarrow> allowed_values (pfields p ! i) = None"
    and "seen \<noteq> {} \<Longrightarrow>
         \<exists>xs. allowed_values (pfields p ! i) = Some xs \<and> length xs = min 50 (card seen)
              \<and> set xs \<subseteq> seen \<and> sorted xs \<and> distinct xs"
proof -
  from profile_column(2)[OF assms(1-3)] obtain fs where
    ra: "register_all L (new_FieldStats (hs ! i)) (column (hs ! i) (sampled_rows m rows)) = Inr fs"
    and fin: "finalize L (length (sampled_rows m rows)) (hs ! i) fs = Inr (pfields p ! i)"
    by blast
  have "finite (allowed_set (new_FieldStats (hs ! i)))" "card (allowed_set (new_FieldStats (hs ! i))) \<le> 50"
    by (simp_all add: new_FieldStats_def)
  from register_all_allowed[OF ra this] have
    fin_a: "finite (allowed_set fs)" and card_a: "card (allowed_set fs) = min 50 (card seen)"
    and sub: "allowed_set fs \<subseteq> seen"
    unfolding seen_def by (simp_all add: new_FieldStats_def)
  have av: "allowed_values (pfields p ! i) =
            (if allowed_set fs \<noteq> {} \<and> card (allowed_set fs) \<le> 50
             then Some (sorted_list_of_set (allowed_set fs)) else None)"
    using finalize_Inr[OF fin] by simp
  {
    assume "seen = {}"
    with sub have "allowed_set fs = {}" by simp
    with av show "allowed_values (pfields p ! i) = None" by simp
  }
  assume ne: "seen \<noteq> {}"
  have "finite seen" unfolding seen_def by simp
  with ne have "card seen > 0" by (simp add: card_gt_0_iff)
  with card_a have pos: "card (allowed_set fs) > 0" by simp
  then have ane: "allowed_set fs \<noteq> {}" by auto
  from card_a have "card (allowed_set fs) \<le> 50" by simp
  with av ane have "allowed_values (pfields p ! i) = Some (sorted_list_of_set (allowed_set fs))"
    by simp
  moreover have "length (sorted_list_of_set (allowed_set fs)) = min 50 (card seen)"
    using card_a by simp
  moreover have "set (sorted_list_of_set (allowed_set fs)) \<subseteq> seen"
    using fin_a sub by simp
  ultimately show "\<exists>xs. allowed_values (pfields p ! i) = Some xs \<and> length xs = min 50 (card seen)
              \<and> set xs \<subseteq> seen \<and> sorted xs \<and> distinct xs"
    by (intro exI[of _ "sorted_list_of_set (allowed_set fs)"]) simp
qed

section \<open>A column of more than 50 distinct values\<close>

text \<open>
  Claim C1 says that a column in which more than 50 distinct non-empty values were seen
  gets no \<open>allowed_values\<close>. In the code \<open>register\<close> adds a value only while the set holds
  fewer than 50, so the set stops at 50 and the test \<open>len(...) <= 50\<close> at the end never
  fails: such a column gets \<open>allowed_values\<close> of exactly 50 entries, the first 50 distinct
  values in sorted order.
\<close>

theorem C1_allowed_values_populated_beyond_cap:
  assumes "profile_from_text L hs rows d m e = Inr p" "distinct hs" "i < length hs"
    and "50 < card (set (filter (\<lambda>v. v \<noteq> []) (column (hs ! i) (sampled_rows m rows))))"
  shows "\<exists>xs. allowed_values (pfields p ! i) = Some xs \<and> length xs = 50
            \<and> set xs \<subseteq> set (column (hs ! i) (sampled_rows m rows))"
proof -
  let ?seen = "set (filter (\<lambda>v. v \<noteq> []) (column (hs ! i) (sampled_rows m rows)))"
  have "?seen \<noteq> {}"
  proof
    assume e: "?seen = {}"
    from assms(4) show False unfolding e by simp
  qed
  from column_allowed_values(2)[OF assms(1-3) this] obtain xs where
    "allowed_values (pfields p ! i) = Some xs" "length xs = min 50 (card ?seen)" "set xs \<subseteq> ?seen"
    by blast
  with assms(4) show ?thesis by (intro exI[of _ xs]) auto
qed

theorem C1_allowed_values_populated_beyond_cap_witness:
  "\<exists>p. profile_from_text ref_lib [''n''] cap_rows '','' STRICT ''utf-8'' = Inr p
     \<and> distinct [''n''] \<and> 0 < length [''n'']
     \<and> card (set (filter (\<lambda>v. v \<noteq> []) (column ([''n''] ! 0) (sampled_rows STRICT cap_rows)))) = 51
     \<and> allowed_values (pfields p ! 0) = Some (take 50 cap_values)
     \<and> (\<exists>xs. allowed_values (pfields p ! 0) = Some xs \<and> length xs = 50)"
proof -
  have "case profile_from_text ref_lib [''n''] cap_rows '','' STRICT ''utf-8'' of
          Inl e \<Rightarrow> False | Inr p \<Rightarrow> allowed_values (pfields p ! 0) = Some (take 50 cap_values)"
    by code_simp
  then obtain p where p: "profile_from_text ref_lib [''n''] cap_rows '','' STRICT ''utf-8'' = Inr p"
    and av: "allowed_values (pfields p ! 0) = Some (take 50 cap_values)"
    by (auto split: sum.splits)
  have c: "card (set (filter (\<lambda>v. v \<noteq> []) (column ([''n''] ! 0) (sampled_rows STRICT cap_rows)))) = 51"
    by code_simp
  have "\<exists>xs. allowed_values (pfields p ! 0) = Some xs \<and> length xs = 50
            \<and> set xs \<subseteq> set (column ([''n''] ! 0) (sampled_rows STRICT cap_rows))"
  proof (rule C1_allowed_values_populated_beyond_cap[OF p])
    show "distinct [''n'']" by simp
    show "0 < length [''n'']" by simp
    show "50 < card (set (filter (\<lambda>v. v \<noteq> []) (column ([''n''] ! 0) (sampled_rows STRICT cap_rows))))"
      unfolding c by simp
  qed
  with p av c show ?thesis by auto
qed

section \<open>The row cap while profiling\<close>

text \<open>
  Claim C3, as amended. In strict mode, profiling more than \<open>MAX_ROWS\<close> data rows never
  succeeds: it aborts with the row-limit error, unless one of the first \<open>MAX_ROWS\<close> rows
  already raised (the only such error is the \<open>TypeError\<close> of ordering a naive against an
  aware timestamp, which needs a cell classified as date or datetime). In fast mode the
  loop leaves at row \<open>FAST_SAMPLE_ROWS + 1\<close>, so the row-limit error is never raised and a
  profile that is returned counts \<open>min(rows, FAST_SAMPLE_ROWS)\<close> rows.
\<close>

theorem C3_row_cap_fires_in_strict_mode_only:
  "(MAX_ROWS < length rows \<longrightarrow>
      (profile_from_text L hs rows d STRICT e = Inl row_limit_error
         \<or> profile_from_text L hs rows d STRICT e = Inl TypeError)
      \<and> (\<not> (\<exists>row \<in> set (take MAX_ROWS rows). date_cell L hs row)
           \<longrightarrow> profile_from_text L hs rows d STRICT e = Inl row_limit_error))
   \<and> profile_from_text L hs rows d FAST e \<noteq> Inl row_limit_error
   \<and> (\<forall>p. profile_from_text L hs rows d FAST e = Inr p
          \<longrightarrow> row_count p = min (length rows) FAST_SAMPLE_ROWS)"
proof (intro conjI impI allI)
  assume over: "MAX_ROWS < length rows"
  from profile_strict_over_cap(1)[OF over]
  show "profile_from_text L hs rows d STRICT e = Inl row_limit_error
         \<or> profile_from_text L hs rows d STRICT e = Inl TypeError" .
  assume "\<not> (\<exists>row \<in> set (take MAX_ROWS rows). date_cell L hs row)"
  from profile_strict_over_cap(2)[OF over this]
  show "profile_from_text L hs rows d STRICT e = Inl row_limit_error" .
next
  show "profile_from_text L hs rows d FAST e \<noteq> Inl row_limit_error"
    by (rule profile_fast_no_row_limit)
next
  fix p assume "profile_from_text L hs rows d FAST e = Inr p"
  from profile_Inr[OF this] have "row_count p = length (sampled_rows FAST rows)" by blast
  then show "row_count p = min (length rows) FAST_SAMPLE_ROWS"
    by (simp add: sampled_rows_def sample_limit_of_def)
qed

theorem C3_row_cap_fires_in_strict_mode_only_witness:
  "MAX_ROWS < length big_rows
   \<and> \<not> (\<exists>row \<in> set (take MAX_ROWS big_rows). date_cell ref_lib [''a''] row)
   \<and> profile_from_text ref_lib [''a''] big_rows '','' STRICT ''utf-8'' = Inl row_limit_error
   \<and> profile_from_text ref_lib [''a''] big_rows '','' FAST ''utf-8'' \<noteq> Inl row_limit_error
   \<and> (\<exists>p. profile_from_text ref_lib [''a''] big_rows '','' FAST ''utf-8'' = Inr p
          \<and> row_count p = FAST_SAMPLE_ROWS)"
proof -
  have len: "MAX_ROWS < length big_rows" by (simp add: big_rows_def)
  note nd = big_rows_no_dates[of MAX_ROWS]
  note inst = C3_row_cap_fires_in_strict_mode_only[of big_rows ref_lib "[''a'']" "'',''" "''utf-8''"]
  from inst len nd have strict:
    "profile_from_text ref_lib [''a''] big_rows '','' STRICT ''utf-8'' = Inl row_limit_error"
    by blast
  from inst have fast:
    "profile_from_text ref_lib [''a''] big_rows '','' FAST ''utf-8'' \<noteq> Inl row_limit_error"
    by blast
  from big_rows_fast_ok obtain p where
    p: "profile_from_text ref_lib [''a''] big_rows '','' FAST ''utf-8'' = Inr p" by blast
  with inst have "row_count p = min (length big_rows) FAST_SAMPLE_ROWS" by blast
  then have "row_count p = FAST_SAMPLE_ROWS"
    by (simp add: big_rows_def MAX_ROWS_def FAST_SAMPLE_ROWS_def)
  with len nd strict fast p show ?thesis by blast
qed

text \<open>
  The claim as stated has the cap fire in fast mode too. Profiling 100,001 rows in fast
  mode returns a profile of 5,000 rows.
\<close>

theorem C3_fast_mode_counterexample:
  "length big_rows = 100001
   \<and> (\<exists>p. profile_from_text ref_lib [''a''] big_rows '','' FAST ''utf-8'' = Inr p
          \<and> row_count p = 5000)"
proof -
  from big_rows_fast_ok obtain p where
    p: "profile_from_text ref_lib [''a''] big_rows '','' FAST ''utf-8'' = Inr p" by blast
  from profile_Inr[OF p] have "row_count p = length (sampled_rows FAST big_rows)" by blast
  then have "row_count p = 5000"
    by (simp add: sampled_rows_def sample_limit_of_def big_rows_def MAX_ROWS_def FAST_SAMPLE_ROWS_def)
  moreover have "length big_rows = 100001" by (simp add: big_rows_def MAX_ROWS_def)
  ultimately show ?thesis using p by blast
qed

section \<open>Final type of a column\<close>

text \<open>
  Claim C4, as amended. For every profiled column the final type is a most frequently
  observed non-empty type; among the types tied for the highest count the one declared
  first in \<open>FieldType\<close> (string, integer, float, decimal, boolean, date, datetime) is
  selected; a column with no non-empty cell resolves to \<open>empty\<close>.
\<close>

theorem C4_final_type_by_declaration_order:
  assumes "profile_from_text L hs rows d m e = Inr p" "distinct hs" "i < length hs"
  shows "let vs = column (hs ! i) (sampled_rows m rows); w = ftype (pfields p ! i) in
     if \<forall>v \<in> set vs. v = [] then w = EMPTY
     else w \<noteq> EMPTY \<and> 0 < type_count L w vs
          \<and> (\<forall>t. t \<noteq> EMPTY \<longrightarrow> type_count L t vs \<le> type_count L w vs)
          \<and> (\<forall>t. t \<noteq> EMPTY \<and> type_count L t vs = type_count L w vs
                 \<longrightarrow> decl_index w \<le> decl_index t)"
proof -
  define vs where "vs = column (hs ! i) (sampled_rows m rows)"
  define n where "n = (\<lambda>t. type_count L t vs)"
  from profile_column(2)[OF assms] obtain fs where
    ra: "register_all L (new_FieldStats (hs ! i)) vs = Inr fs"
    and fin: "finalize L (length (sampled_rows m rows)) (hs ! i) fs = Inr (pfields p ! i)"
    unfolding vs_def by blast
  have w: "ftype (pfields p ! i) = pick_final_type (map (\<lambda>k. (k, n k)) all_types)"
    using finalize_Inr[OF fin] column_type_counts[OF ra] unfolding n_def by simp
  show ?thesis
  proof (cases "\<forall>v \<in> set vs. v = []")
    case True
    then have "\<forall>t. t \<noteq> EMPTY \<longrightarrow> n t = 0"
      unfolding n_def type_count_def by (auto simp: filter_empty_conv detect_type_EMPTY_iff)
    from final_type_of_counts(1)[of n, OF this] True show ?thesis
      unfolding Let_def w vs_def[symmetric] by simp
  next
    case False
    then obtain v where v: "v \<in> set vs" "v \<noteq> []" by blast
    then have t0: "detect_type L v \<noteq> EMPTY" by (simp add: detect_type_EMPTY_iff)
    have pos: "n (detect_type L v) > 0"
      unfolding n_def type_count_def using v(1) by (auto simp: filter_empty_conv)
    from final_type_of_counts(2)[of "detect_type L v" n, OF t0 pos] False show ?thesis
      unfolding Let_def w vs_def[symmetric] n_def by simp
  qed
qed

theorem C4_final_type_by_declaration_order_witness:
  "\<exists>p. profile_from_text ref_lib example_headers example_rows '','' STRICT ''utf-8'' = Inr p
     \<and> distinct example_headers \<and> 0 < length example_headers
     \<and> ftype (pfields p ! 0) = INTEGER
     \<and> type_count ref_lib BOOLEAN (column (example_headers ! 0) (sampled_rows STRICT example_rows))
         = type_count ref_lib INTEGER (column (example_headers ! 0) (sampled_rows STRICT example_rows))
     \<and> decl_index (ftype (pfields p ! 0)) \<le> decl_index BOOLEAN"
proof -
  let ?vs = "column (example_headers ! 0) (sampled_rows STRICT example_rows)"
  have "case profile_from_text ref_lib example_headers example_rows '','' STRICT ''utf-8'' of
          Inl e \<Rightarrow> False | Inr p \<Rightarrow> ftype (pfields p ! 0) = INTEGER"
    by code_simp
  then obtain p where
    p: "profile_from_text ref_lib example_headers example_rows '','' STRICT ''utf-8'' = Inr p"
    and w: "ftype (pfields p ! 0) = INTEGER"
    by (auto split: sum.splits)
  have dist: "distinct example_headers" and len: "0 < length example_headers"
    by (simp_all add: example_headers_def)
  have ne: "\<not> (\<forall>v \<in> set ?vs. v = [])" by code_simp
  have tie: "type_count ref_lib BOOLEAN ?vs = type_count ref_lib INTEGER ?vs" by code_simp
  from C4_final_type_by_declaration_order[OF p dist len] ne
  have "\<forall>t. t \<noteq> EMPTY \<and> type_count ref_lib t ?vs = type_count ref_lib INTEGER ?vs
            \<longrightarrow> decl_index INTEGER \<le> decl_index t"
    unfolding Let_def w by simp
  with tie have "decl_index INTEGER \<le> decl_index BOOLEAN" by simp
  with p dist len w tie show ?thesis by simp
qed

text \<open>
  The claim as stated breaks ties by the order in which the types were first seen. In
  column \<open>a\<close> of the example the first cell is a boolean and the second an integer, one
  of each; the final type is \<open>integer\<close>.
\<close>

theorem C4_first_seen_counterexample:
  "map (detect_type ref_lib) (column ''a'' example_rows) = [BOOLEAN, INTEGER, EMPTY]
   \<and> type_count ref_lib BOOLEAN (column ''a'' example_rows) = 1
   \<and> type_count ref_lib INTEGER (column ''a'' example_rows) = 1
   \<and> (case profile_from_text ref_lib example_headers example_rows '','' STRICT ''utf-8'' of
         Inl e \<Rightarrow> False
       | Inr p \<Rightarrow> name (pfields p ! 0) = ''a'' \<and> ftype (pfields p ! 0) = INTEGER)"
  by code_simp

section \<open>Default bounds of a decimal field\<close>

text \<open>
  Claim C5. The specification gives decimal fields the bound policy of float fields, where
  an unset \<open>max_value\<close> defaults to \<open>max(low + 1, 1000)\<close>. The decimal branch of
  \<open>_generate_value\<close> takes the constant \<open>Decimal("1000")\<close> instead. For a field whose
  \<open>min_value\<close> is above 1000 and whose \<open>max_value\<close> is unset, the float bounds are
  \<open>(q, q + 1)\<close> and the decimal bounds are \<open>(q, 1000)\<close>, upper below lower; without allowed
  values the candidate is \<open>low + (high - low) * u\<close> for the draw \<open>u\<close> of \<open>random.random()\<close>, which
  for every \<open>u > 0\<close> lies below the \<open>min_value\<close> of the field. The hypotheses on the library
  say that \<open>Decimal(str(x))\<close> is exact on the bound and on the draw.
\<close>

theorem C5_decimal_upper_default_is_constant:
  assumes "min_value c = Some (Finite q)" and "max_value c = None" and "1000 < q"
    and "Decimal_of_float_str S (Finite q) = DFinite q"
    and "random R (rng w) = (u, g)" and "Decimal_of_draw S u = DFinite u" and "0 < u"
  shows "float_bounds c = (Finite q, Finite (q + 1))
         \<and> decimal_bounds S c = Inr (DFinite q, DFinite 1000)
         \<and> (\<exists>v. decimal_candidate R S [] (DFinite q) (DFinite 1000) w = Inr (DFinite v, w\<lparr>rng := g\<rparr>)
                \<and> v = q + (1000 - q) * u \<and> v < q)"
proof (intro conjI)
  from assms(1-3) show "float_bounds c = (Finite q, Finite (q + 1))"
    by (simp add: float_bounds_def float_max_def)
  from assms(1-4) show "decimal_bounds S c = Inr (DFinite q, DFinite 1000)"
    by (simp add: decimal_bounds_def dec_eq_def)
  have c: "decimal_candidate R S [] (DFinite q) (DFinite 1000) w
             = Inr (DFinite (q + (1000 - q) * u), w\<lparr>rng := g\<rparr>)"
    using assms(5,6) by (simp add: decimal_candidate_def dec_sub_def)
  from assms(3,7) have "(1000 - q) * u < 0" by (simp add: mult_neg_pos)
  then have "q + (1000 - q) * u < q" by simp
  with c show "\<exists>v. decimal_candidate R S [] (DFinite q) (DFinite 1000) w = Inr (DFinite v, w\<lparr>rng := g\<rparr>)
                \<and> v = q + (1000 - q) * u \<and> v < q" by blast
qed

text \<open>
  For \<open>min_value = 2000\<close> the reference instance gives the bounds \<open>(2000, 2001)\<close> for float
  and \<open>(2000, 1000)\<close> for decimal, and \<open>_generate_value\<close> returns \<open>1700.735\<close>.
\<close>

theorem C5_decimal_upper_default_is_constant_witness:
  "min_value open_decimal_field = Some (Finite 2000)
   \<and> max_value open_decimal_field = None
   \<and> (1000 :: rat) < 2000
   \<and> Decimal_of_float_str ref_synthlib (Finite 2000) = DFinite 2000
   \<and> random ref_random (rng (world_at 7 new_year_2024)) = (320542029 / 536870912, 1282168116)
   \<and> Decimal_of_draw ref_synthlib (320542029 / 536870912) = DFinite (320542029 / 536870912)
   \<and> (0 :: rat) < 320542029 / 536870912
   \<and> float_bounds open_decimal_field = (Finite 2000, Finite 2001)
   \<and> decimal_bounds ref_synthlib open_decimal_field = Inr (DFinite 2000, DFinite 1000)
   \<and> (\<exists>v. decimal_candidate ref_random ref_synthlib [] (DFinite 2000) (DFinite 1000) (world_at 7 new_year_2024)
            = Inr (DFinite v, (world_at 7 new_year_2024)\<lparr>rng := 1282168116\<rparr>) \<and> v < 2000)
   \<and> map_sum id fst (generate_value ref_random ref_lib ref_synthlib open_decimal_field ''.''
                        (world_at 7 new_year_2024)) = Inr ''1700.735''"
proof -
  have h1: "min_value open_decimal_field = Some (Finite 2000)"
    and h2: "max_value open_decimal_field = None"
    by (simp_all add: open_decimal_field_def)
  have h3: "(1000 :: rat) < 2000" by simp
  have h4: "Decimal_of_float_str ref_synthlib (Finite 2000) = DFinite 2000"
    by (simp add: ref_synthlib_def decimal_of_pyfloat_def)
  have h5: "random ref_random (rng (world_at 7 new_year_2024)) = (320542029 / 536870912, 1282168116)"
    by code_simp
  have h6: "Decimal_of_draw ref_synthlib (320542029 / 536870912) = DFinite (320542029 / 536870912)"
    by (simp add: ref_synthlib_def)
  have h7: "(0 :: rat) < 320542029 / 536870912" by simp
  have out: "map_sum id fst (generate_value ref_random ref_lib ref_synthlib open_decimal_field ''.''
                        (world_at 7 new_year_2024)) = Inr ''1700.735''"
    by code_simp
  from C5_decimal_upper_default_is_constant[OF h1 h2 h3 h4 h5 h6 h7]
  have "float_bounds open_decimal_field = (Finite 2000, Finite 2001)"
    and "decimal_bounds ref_synthlib open_decimal_field = Inr (DFinite 2000, DFinite 1000)"
    and "\<exists>v. decimal_candidate ref_random ref_synthlib [] (DFinite 2000) (DFinite 1000) (world_at 7 new_year_2024)
            = Inr (DFinite v, (world_at 7 new_year_2024)\<lparr>rng := 1282168116\<rparr>) \<and> v < 2000"
    by auto
  with h1 h2 h3 h4 h5 h6 h7 out show ?thesis by blast
qed

section \<open>Decimal separator of the file\<close>

text \<open>
  Claim C6 (as stated, refuted). The specification resolves the separator from the separators
  detected in numeric cells. The loop of \<open>profile_from_text\<close> records the separator of a cell
  before and regardless of the type \<open>detect_type\<close> gives it: the cell \<open>1,2,3\<close> is classified as
  a string, no cell of the file is numeric, and the file still resolves to \<open>","\<close>.
\<close>

theorem C6_non_numeric_cell_counterexample:
  "\<exists>p. profile_from_text ref_lib [''x''] [[''x'' \<mapsto> ''1,2,3'']] '';'' FAST ''utf-8'' = Inr p
     \<and> decimal_separator p = '',''
     \<and> detect_type ref_lib ''1,2,3'' = STRING
     \<and> \<not> numeric_separator_seen ref_lib '','' [''x''] (sampled_rows FAST [[''x'' \<mapsto> ''1,2,3'']])"
proof -
  let ?rows = "[[''x'' \<mapsto> ''1,2,3'']]"
  have "case profile_from_text ref_lib [''x''] ?rows '';'' FAST ''utf-8'' of
          Inl e \<Rightarrow> False | Inr p \<Rightarrow> decimal_separator p = '',''"
    by code_simp
  then obtain p where p: "profile_from_text ref_lib [''x''] ?rows '';'' FAST ''utf-8'' = Inr p"
    and s: "decimal_separator p = '',''"
    by (auto split: sum.splits)
  have t: "detect_type ref_lib ''1,2,3'' = STRING" by code_simp
  have n: "\<not> numeric_separator_seen ref_lib '','' [''x''] (sampled_rows FAST ?rows)" by code_simp
  from p s t n show ?thesis by blast
qed

text \<open>
  Claim C6 (amended). The decimal separator that \<open>profile_from_text\<close> resolves for the file is
  \<open>","\<close> exactly when \<open>detect_decimal_separator\<close> returned \<open>","\<close> for at least one cell of the rows
  examined, whatever the type of that cell, and never returned \<open>"."\<close>; in every other case (both
  seen, only \<open>"."\<close> seen, none seen) it is \<open>"."\<close>. The rows examined are all rows in strict mode
  and the first \<open>FAST_SAMPLE_ROWS\<close> rows in fast mode.
\<close>

theorem C6_decimal_separator_of_any_cell:
  assumes "profile_from_text L hs rows d m e = Inr p"
  shows "decimal_separator p =
           (if separator_seen '','' hs (sampled_rows m rows)
               \<and> \<not> separator_seen ''.'' hs (sampled_rows m rows)
            then '','' else ''.'')"
proof -
  from profile_Inr[OF assms] obtain st' where
    1: "scan_rows L hs (sampled_rows m rows) (init_stats hs, {}) = Inr st'"
    and 2: "decimal_separator p = (if '','' \<in> snd st' \<and> ''.'' \<notin> snd st' then '','' else ''.'')"
    by blast
  from scan_rows_seps[OF 1] have "\<And>sep. sep \<in> snd st' \<longleftrightarrow> separator_seen sep hs (sampled_rows m rows)"
    by (auto simp: separator_seen_def cell_seps_def)
  with 2 show ?thesis by simp
qed

theorem C6_decimal_separator_of_any_cell_witness:
  "\<exists>p. profile_from_text ref_lib [''x'', ''y''] [[''x'' \<mapsto> ''1,5'', ''y'' \<mapsto> ''abc'']] '';'' FAST ''utf-8'' = Inr p
     \<and> separator_seen '','' [''x'', ''y''] (sampled_rows FAST [[''x'' \<mapsto> ''1,5'', ''y'' \<mapsto> ''abc'']])
     \<and> \<not> separator_seen ''.'' [''x'', ''y''] (sampled_rows FAST [[''x'' \<mapsto> ''1,5'', ''y'' \<mapsto> ''abc'']])
     \<and> decimal_separator p = '',''"
proof -
  let ?rows = "[[''x'' \<mapsto> ''1,5'', ''y'' \<mapsto> ''abc'']]"
  have "case profile_from_text ref_lib [''x'', ''y''] ?rows '';'' FAST ''utf-8'' of
          Inl e \<Rightarrow> False | Inr p \<Rightarrow> True"
    by code_simp
  then obtain p where p: "profile_from_text ref_lib [''x'', ''y''] ?rows '';'' FAST ''utf-8'' = Inr p"
    by (auto split: sum.splits)
  have a: "separator_seen '','' [''x'', ''y''] (sampled_rows FAST ?rows)" by code_simp
  have b: "\<not> separator_seen ''.'' [''x'', ''y''] (sampled_rows FAST ?rows)" by code_simp
  from C6_decimal_separator_of_any_cell[OF p] a b p show ?thesis by simp
qed

section \<open>The row cap in profiling and in synthesis\<close>




section \<open>Bounded integers\<close>

text \<open>
  Claim C8. For an integer field with \<open>min_value = 10\<close>, \<open>max_value = 20\<close> and
  \<open>allowed_values = ["11", "15", "19"]\<close>, \<open>_generate_value\<close> returns, in every state of the
  generator and of the clock, either the empty text (the null value, for a nullable field
  only) or \<open>str(v)\<close> for an integer \<open>v\<close> with \<open>10 \<le> v \<le> 20\<close>, and that text reads back as \<open>v\<close>.
  The jittered choice is clamped into the bounds whatever the generator draws; the contract
  of \<open>randint\<close> is needed only for a library whose \<open>int\<close> rejects the three allowed values,
  where the value is drawn from \<open>randint(10, 20)\<close>.
\<close>

theorem C8_bounded_integer_values:
  assumes "random_ok R"
    and "ftype c = INTEGER"
    and "min_value c = Some (Finite 10)"
    and "max_value c = Some (Finite 20)"
    and "allowed_values c = Some [''11'', ''15'', ''19'']"
  shows "\<exists>out w'. generate_value R L S c decimal_sep w = Inr (out, w')
           \<and> (out = [] \<and> nullable c
               \<or> (\<exists>v. out = str_int v \<and> ref_int out = Some v \<and> 10 \<le> v \<and> v \<le> 20))"
proof -
  obtain u g where r: "random R (rng w) = (u, g)" by (cases "random R (rng w)")
  show ?thesis
  proof (cases "u < null_probability c \<and> nullable c")
    case True
    with r show ?thesis by (simp add: generate_value_def Let_def)
  next
    case False
    from generate_integer_10_20[OF assms(1,3,4), of L "w\<lparr>rng := g\<rparr>"] obtain v w' where
      "generate_integer R L c (w\<lparr>rng := g\<rparr>) = Inr (str_int v, w')" "10 \<le> v" "v \<le> 20" by auto
    with False r assms(2) have "generate_value R L S c decimal_sep w = Inr (str_int v, w')"
      by (auto simp: generate_value_def Let_def)
    with \<open>10 \<le> v\<close> \<open>v \<le> 20\<close> ref_int_str_int[of v] show ?thesis by blast
  qed
qed

text \<open>The reference generator in state 7 gives the value 16.\<close>

theorem C8_bounded_integer_values_witness:
  "random_ok ref_random
   \<and> ftype bounded_field = INTEGER
   \<and> min_value bounded_field = Some (Finite 10)
   \<and> max_value bounded_field = Some (Finite 20)
   \<and> allowed_values bounded_field = Some [''11'', ''15'', ''19'']
   \<and> (\<exists>w'. generate_value ref_random ref_lib ref_synthlib bounded_field ''.'' (world_at 7 new_year_2024)
            = Inr (''16'', w'))
   \<and> (\<exists>out w'. generate_value ref_random ref_lib ref_synthlib bounded_field ''.'' (world_at 7 new_year_2024)
            = Inr (out, w')
          \<and> (\<exists>v. out = str_int v \<and> ref_int out = Some v \<and> 10 \<le> v \<and> v \<le> 20))"
proof -
  have f: "ftype bounded_field = INTEGER" "min_value bounded_field = Some (Finite 10)"
    "max_value bounded_field = Some (Finite 20)"
    "allowed_values bounded_field = Some [''11'', ''15'', ''19'']"
    "\<not> nullable bounded_field"
    by (simp_all add: bounded_field_def)
  have e: "case generate_value ref_random ref_lib ref_synthlib bounded_field ''.'' (world_at 7 new_year_2024) of
             Inl x \<Rightarrow> False | Inr (out, w') \<Rightarrow> out = ''16''"
    by code_simp
  then have e': "\<exists>w'. generate_value ref_random ref_lib ref_synthlib bounded_field ''.'' (world_at 7 new_year_2024)
            = Inr (''16'', w')"
    by (auto split: sum.splits)
  from C8_bounded_integer_values[OF ref_random_ok f(1-4), of ref_lib ref_synthlib "''.''" "world_at 7 new_year_2024"]
    f(5) ref_random_ok f(1-4) e'
  show ?thesis by simp
qed

section \<open>A column that starts with a NaN cell\<close>

text \<open>
  Claim C9 says that in every profile the bounds that are both set are ordered:
  \<open>min_length \<le> max_length\<close>, \<open>min_value \<le> max_value\<close>, \<open>date_min \<le> date_max\<close>. Lemma
  \<open>profile_bounds_invariant\<close> above proves the three orders of every returned profile,
  except that \<open>min_value\<close> and \<open>max_value\<close> may both be NaN. That case occurs: the cell
  \<open>nan\<close> is classified as float and read as NaN, Python's \<open>min\<close> and \<open>max\<close> keep a NaN that
  came first, and \<open>nan <= nan\<close> is false.
\<close>

theorem C9_nan_cell_breaks_value_order:
  "case profile_from_text ref_lib [''x''] [[''x'' \<mapsto> ''nan'']] '','' STRICT ''utf-8'' of
     Inl e \<Rightarrow> False
   | Inr p \<Rightarrow> map ftype (pfields p) = [FLOAT]
              \<and> map min_value (pfields p) = [Some NaN]
              \<and> map max_value (pfields p) = [Some NaN]
              \<and> \<not> float_le NaN NaN"
  by code_simp

section \<open>A file with a header and no data rows\<close>

text \<open>
  Claim C10 says that a column without non-empty cells, also in a file with a header row
  and no data rows, gets the type \<open>empty\<close>, no \<open>min_length\<close>, \<open>max_length = 0\<close> and a
  \<open>null_fraction\<close> of 1 (of 0 when no row was sampled). Lemma \<open>empty_column_constraint\<close>
  above proves this of every profile that is returned, for distinct headers. In strict
  mode, though, no profile is returned for a file without data rows: \<open>sample_limit or idx\<close>
  reads the loop variable, which was never bound, and the call raises
  \<open>UnboundLocalError\<close>.
\<close>

theorem C10_strict_mode_without_rows_raises:
  "profile_from_text L hs [] d STRICT e = Inl UnboundLocalError"
  unfolding profile_strict_eq by simp

theorem C10_strict_mode_without_rows_raises_witness:
  "profile_from_text ref_lib [''a''] [] '','' STRICT ''utf-8'' = Inl UnboundLocalError
   \<and> (case profile_from_text ref_lib [''a''] [] '','' FAST ''utf-8'' of
         Inl e \<Rightarrow> False
       | Inr p \<Rightarrow> row_count p = 0 \<and> map ftype (pfields p) = [EMPTY]
                  \<and> map null_fraction (pfields p) = [0])"
proof -
  have "case profile_from_text ref_lib [''a''] [] '','' FAST ''utf-8'' of
         Inl e \<Rightarrow> False
       | Inr p \<Rightarrow> row_count p = 0 \<and> map ftype (pfields p) = [EMPTY]
                  \<and> map null_fraction (pfields p) = [0]"
    by code_simp
  with C10_strict_mode_without_rows_raises[of ref_lib "[''a'']" "'',''" "''utf-8''"]
  show ?thesis by simp
qed

section \<open>Reproducibility of synthesis\<close>

text \<open>
  Claim C2, as amended. When every field of type date or datetime has both \<open>date_min\<close> and
  \<open>date_max\<close> set, two calls of \<open>profile_to_csv\<close> with the same profile, row count, seed and
  decimal separator have the same outcome, the same bytes or the same error, whatever the
  state of the generator and the clock are at each call: seeding resets the generator, and
  what the clock reads is not used. This holds for every behaviour of the library, every
  row count and every seed.
\<close>

theorem C2_seeded_output_independent_of_process_state:
  assumes "\<forall>c \<in> set (pfields P). clock_free c" and "clock_ok w" and "clock_ok w'"
  shows "map_sum id fst (profile_to_csv R L S P n (Some s) ds w)
           = map_sum id fst (profile_to_csv R L S P n (Some s) ds w')"
  by (rule same_outcome_result[OF profile_to_csv_seeded_same[OF assms(2,3,1)]])

text \<open>
  For a profile of an integer field and a date field with the bounds 2024-01-01 and
  2024-12-31, seed 1 gives the same two rows at the start of 2024 with the generator in
  state 7 and at the start of 2025 with the generator in state 99.
\<close>

theorem C2_seeded_output_independent_of_process_state_witness:
  "list_all clock_free (pfields closed_date_profile)
   \<and> clock_ok (world_at 7 new_year_2024)
   \<and> clock_ok (world_at 99 new_year_2025)
   \<and> map_sum id fst (profile_to_csv ref_random ref_lib ref_synthlib closed_date_profile 2 (Some 1) None
                        (world_at 7 new_year_2024))
       = Inr (''n,d'' @ [CHR 0x0D, CHR 0x0A] @ ''16,2024-07-12'' @ [CHR 0x0D, CHR 0x0A]
              @ ''20,2024-06-28'' @ [CHR 0x0D, CHR 0x0A])
   \<and> map_sum id fst (profile_to_csv ref_random ref_lib ref_synthlib closed_date_profile 2 (Some 1) None
                        (world_at 99 new_year_2025))
       = Inr (''n,d'' @ [CHR 0x0D, CHR 0x0A] @ ''16,2024-07-12'' @ [CHR 0x0D, CHR 0x0A]
              @ ''20,2024-06-28'' @ [CHR 0x0D, CHR 0x0A])"
proof -
  have cf: "list_all clock_free (pfields closed_date_profile)"
    by (simp add: closed_date_profile_def clock_free_def bounded_field_def closed_date_field_def
          open_date_field_def bound_given_def)
  then have cf': "\<forall>c \<in> set (pfields closed_date_profile). clock_free c"
    by (simp add: list_all_iff)
  note ok = example_clocks_ok(1)[of 7] example_clocks_ok(2)[of 99]
  have a: "map_sum id fst (profile_to_csv ref_random ref_lib ref_synthlib closed_date_profile 2 (Some 1) None
                        (world_at 7 new_year_2024))
       = Inr (''n,d'' @ [CHR 0x0D, CHR 0x0A] @ ''16,2024-07-12'' @ [CHR 0x0D, CHR 0x0A]
              @ ''20,2024-06-28'' @ [CHR 0x0D, CHR 0x0A])"
    by code_simp
  from C2_seeded_output_independent_of_process_state[OF cf' ok, of ref_random ref_lib ref_synthlib 2 1 None] a
  have b: "map_sum id fst (profile_to_csv ref_random ref_lib ref_synthlib closed_date_profile 2 (Some 1) None
                        (world_at 99 new_year_2025))
       = Inr (''n,d'' @ [CHR 0x0D, CHR 0x0A] @ ''16,2024-07-12'' @ [CHR 0x0D, CHR 0x0A]
              @ ''20,2024-06-28'' @ [CHR 0x0D, CHR 0x0A])"
    by simp
  from cf ok a b show ?thesis by blast
qed

text \<open>
  The claim as stated covers every valid profile. A date field without bounds takes its
  window from \<open>datetime.now()\<close>: the same call, with the same seed and from the same state
  of the generator, returns another date a year later.
\<close>

theorem C2_clock_counterexample:
  "map_sum id fst (profile_to_csv ref_random ref_lib ref_synthlib open_date_profile 1 (Some 1) None
                     (world_at 0 new_year_2024))
     = Inr (''d'' @ [CHR 0x0D, CHR 0x0A] @ ''2023-12-20'' @ [CHR 0x0D, CHR 0x0A])
   \<and> map_sum id fst (profile_to_csv ref_random ref_lib ref_synthlib open_date_profile 1 (Some 1) None
                     (world_at 0 new_year_2025))
     = Inr (''d'' @ [CHR 0x0D, CHR 0x0A] @ ''2024-12-20'' @ [CHR 0x0D, CHR 0x0A])
   \<and> rng (world_at 0 new_year_2024) = rng (world_at 0 new_year_2025)
   \<and> clock_ok (world_at 0 new_year_2024)
   \<and> clock_ok (world_at 0 new_year_2025)"
proof -
  have a: "map_sum id fst (profile_to_csv ref_random ref_lib ref_synthlib open_date_profile 1 (Some 1) None
                     (world_at 0 new_year_2024))
     = Inr (''d'' @ [CHR 0x0D, CHR 0x0A] @ ''2023-12-20'' @ [CHR 0x0D, CHR 0x0A])"
    by code_simp
  have b: "map_sum id fst (profile_to_csv ref_random ref_lib ref_synthlib open_date_profile 1 (Some 1) None
                     (world_at 0 new_year_2025))
     = Inr (''d'' @ [CHR 0x0D, CHR 0x0A] @ ''2024-12-20'' @ [CHR 0x0D, CHR 0x0A])"
    by code_simp
  have c: "rng (world_at 0 new_year_2024) = rng (world_at 0 new_year_2025)"
    by (simp add: world_at_def)
  from a b c example_clocks_ok(1)[of 0] example_clocks_ok(2)[of 0] show ?thesis by blast
qed

end
